theory Spec2Isabelle
  imports Main "HOL-Library.AList"
begin

section \<open>The harvesting pipeline of scripting/get\_game\_data.py\<close>

text \<open>
  The development follows \<^verbatim>\<open>src/scripting/get_game_data.py\<close>, function by function and
  under the names of the source. What the script takes from Python's library
  (\<^verbatim>\<open>re\<close>, \<^verbatim>\<open>str.replace\<close>, \<^verbatim>\<open>pathlib\<close>, \<^verbatim>\<open>shutil\<close>, \<^verbatim>\<open>json\<close>,
  \<^verbatim>\<open>subprocess\<close>) is modelled beside it, as far as the script uses it.

  \<^item> A Python string is a \<^typ>\<open>string\<close>; a character is a code point below 256 (Latin-1).
  \<^item> The file system is a tree of directories and regular files on a POSIX host; there
    are no symbolic links, permissions or special files. A canonical absolute path is the
    list of its components from the root.
  \<^item> Every exception is a value of \<open>error\<close>, and a function that can raise returns
    \<open>error + 'a\<close>. A function that changes the file system takes the tree and returns
    the new one.
\<close>

subsection \<open>Errors and paths\<close>

datatype error =
    IndexError
  | ReError
  | FileNotFoundError
  | FileExistsError
  | NotADirectoryError
  | IsADirectoryError
  | ShutilError
  | OutsideModel

text \<open>
  \<open>ReError\<close> is \<^verbatim>\<open>re.error\<close> and \<open>ShutilError\<close> is \<^verbatim>\<open>shutil.Error\<close>.
  \<open>OutsideModel\<close> is not a Python exception: it marks an input on which the model of a
  library function says nothing (a regular expression or a glob pattern outside the
  modelled syntax, a copy whose source and destination overlap).
\<close>

type_synonym path = "string list"

definition name :: "path \<Rightarrow> string" where
  \<comment> \<open>\<^verbatim>\<open>path.name\<close>: the final component, the empty string for the root.\<close>
  "name p = (if p = [] then [] else last p)"

subsection \<open>Case folding\<close>

definition lower :: "char \<Rightarrow> char" where
  \<comment> \<open>the lower-case form of a Latin-1 character: A-Z and the accented capitals
      (code points 192-222 but for the multiplication sign 215) move up by 32.\<close>
  "lower c =
     (let n = (of_char c :: nat)
      in if (65 \<le> n \<and> n \<le> 90) \<or> (192 \<le> n \<and> n \<le> 222 \<and> n \<noteq> 215)
         then char_of (n + 32) else c)"

subsection \<open>A fragment of Python's \<^verbatim>\<open>re\<close>\<close>

text \<open>
  \<^verbatim>\<open>re.findall(to_strip, dirname, flags=re.IGNORECASE)\<close> treats \<^verbatim>\<open>to_strip\<close> as a
  regular expression. The model covers the patterns built from ordinary characters, the
  dot and the star: an ordinary character matches itself in either case, \<^verbatim>\<open>.\<close> matches
  any character but a newline, and \<^verbatim>\<open>x*\<close> repeats the preceding item greedily. A star
  with nothing to repeat, or following another star, is \<^verbatim>\<open>re.error\<close>; any other special
  character is outside the model.
\<close>

datatype atom = Lit char | AnyChar

datatype item = Once atom | Star atom

definition special :: "char \<Rightarrow> bool" where
  \<comment> \<open>the special characters of \<^verbatim>\<open>re\<close>; \<open>CHR 0x5C\<close> is the backslash.\<close>
  "special c = (c \<in> set (''.^$*+?{}[]|()'' @ [CHR 0x5C]))"

definition atom_of :: "char \<Rightarrow> atom option" where
  "atom_of c = (if c = CHR ''.'' then Some AnyChar
                else if special c then None else Some (Lit c))"

fun compile :: "string \<Rightarrow> error + item list" where
  "compile [] = Inr []"
| "compile [c] =
     (if c = CHR ''*'' then Inl ReError
      else case atom_of c of None \<Rightarrow> Inl OutsideModel | Some a \<Rightarrow> Inr [Once a])"
| "compile (c # d # cs) =
     (if c = CHR ''*'' then Inl ReError
      else case atom_of c of
        None \<Rightarrow> Inl OutsideModel
      | Some a \<Rightarrow>
          if d = CHR ''*'' then
            (case cs of
               e # _ \<Rightarrow>
                 if e = CHR ''*'' then Inl ReError
                 else (case compile cs of Inl err \<Rightarrow> Inl err | Inr r \<Rightarrow> Inr (Star a # r))
             | [] \<Rightarrow> Inr [Star a])
          else (case compile (d # cs) of Inl err \<Rightarrow> Inl err | Inr r \<Rightarrow> Inr (Once a # r)))"

fun atom_matches :: "atom \<Rightarrow> char \<Rightarrow> bool" where
  "atom_matches (Lit c) d = (lower d = lower c)"
| "atom_matches AnyChar d = (d \<noteq> CHR 0x0A)"

text \<open>
  \<open>match_here its s\<close> is the length of the match of the whole pattern at the start of
  \<open>s\<close> that the backtracking matcher finds first: a starred item takes as many characters
  as it can and gives them back one at a time when the rest of the pattern fails.
\<close>

fun match_here :: "item list \<Rightarrow> string \<Rightarrow> nat option" where
  "match_here [] s = Some 0"
| "match_here (Once a # r) [] = None"
| "match_here (Once a # r) (c # cs) =
     (if atom_matches a c then map_option Suc (match_here r cs) else None)"
| "match_here (Star a # r) [] = match_here r []"
| "match_here (Star a # r) (c # cs) =
     (if atom_matches a c then
        (case match_here (Star a # r) cs of
           Some n \<Rightarrow> Some (Suc n)
         | None \<Rightarrow> match_here r (c # cs))
      else match_here r (c # cs))"

text \<open>
  \<open>scan\<close> is the loop of \<^verbatim>\<open>findall\<close>: the matches from left to right, without overlap.
  After an empty match the next match at the same position must be non-empty
  (\<open>adv\<close>); in this fragment the empty match is the matcher's last choice, so no other
  match exists there and the scan moves one character on.
\<close>

function scan :: "item list \<Rightarrow> bool \<Rightarrow> string \<Rightarrow> string list" where
  "scan its adv s =
     (case match_here its s of
        None \<Rightarrow> (case s of [] \<Rightarrow> [] | c # cs \<Rightarrow> scan its False cs)
      | Some n \<Rightarrow>
          if n = 0 then
            (if adv then (case s of [] \<Rightarrow> [] | c # cs \<Rightarrow> scan its False cs)
             else [] # scan its True s)
          else take n s # scan its False (drop n s))"
  by pat_completeness auto
termination
proof -
  have le: "n \<le> length s" if "match_here its s = Some n" for its s n
    using that
    by (induction its s arbitrary: n rule: match_here.induct)
       (auto split: if_splits option.splits)
  show ?thesis
    by (relation "measure (\<lambda>(its, adv, s). 2 * length s + (if adv then 0 else 1))")
       (auto dest: le)
qed

declare scan.simps [simp del]

definition findall :: "string \<Rightarrow> string \<Rightarrow> error + string list" where
  "findall pattern s =
     (case compile pattern of Inl e \<Rightarrow> Inl e | Inr its \<Rightarrow> Inr (scan its False s))"

subsection \<open>\<^verbatim>\<open>str.replace\<close>\<close>

text \<open>
  \<open>replace s old new\<close> is \<^verbatim>\<open>s.replace(old, new)\<close>: every occurrence of \<open>old\<close>, left
  to right and without overlap, becomes \<open>new\<close>; an empty \<open>old\<close> puts \<open>new\<close> before
  every character and at the end.
\<close>

function replace :: "string \<Rightarrow> string \<Rightarrow> string \<Rightarrow> string" where
  "replace s old new =
     (if old = [] then new @ concat (map (\<lambda>c. c # new) s)
      else if s = [] then []
      else if take (length old) s = old then new @ replace (drop (length old) s) old new
      else hd s # replace (tl s) old new)"
  by pat_completeness auto
termination
  by (relation "measure (\<lambda>(s, old, new). length s)") auto

declare replace.simps [simp del]

subsection \<open>Name Transformer: \<^verbatim>\<open>get_names_from_paths\<close>\<close>

text \<open>
  The loop over \<^verbatim>\<open>paths\<close>: for each path, \<^verbatim>\<open>findall(...)[0]\<close> is the first match
  (\<open>IndexError\<close> when there is none), and \<^verbatim>\<open>dirname.replace(match, "")\<close> removes it.
  The first path that raises ends the loop.
\<close>

fun get_names_from_paths :: "path list \<Rightarrow> string \<Rightarrow> error + string list" where
  "get_names_from_paths [] to_strip = Inr []"
| "get_names_from_paths (p # ps) to_strip =
     (case findall to_strip (name p) of
        Inl e \<Rightarrow> Inl e
      | Inr [] \<Rightarrow> Inl IndexError
      | Inr (m # _) \<Rightarrow>
          (case get_names_from_paths ps to_strip of
             Inl e \<Rightarrow> Inl e
           | Inr new_names \<Rightarrow> Inr (replace (name p) m [] # new_names)))"

subsection \<open>The file system\<close>

text \<open>
  A node is a regular file with its content or a directory with its entries, in the order
  in which the directory is listed. \<open>lstat\<close> follows a canonical path from a node and
  fails as the system call does: \<open>NotADirectoryError\<close> below a file,
  \<open>FileNotFoundError\<close> for a missing entry. \<open>put fs p v\<close> stores \<open>v\<close> at the path
  \<open>p\<close> whose parent is an existing directory: it replaces the entry in place or adds it
  at the end of the listing.
\<close>

datatype node = File string | Dir "(string \<times> node) list"

type_synonym entries = "(string \<times> node) list"

fun lstat :: "node \<Rightarrow> path \<Rightarrow> error + node" where
  "lstat n [] = Inr n"
| "lstat (File _) (c # cs) = Inl NotADirectoryError"
| "lstat (Dir es) (c # cs) =
     (case map_of es c of None \<Rightarrow> Inl FileNotFoundError | Some m \<Rightarrow> lstat m cs)"

fun put :: "node \<Rightarrow> path \<Rightarrow> node \<Rightarrow> node" where
  "put n [] v = v"
| "put (File c) (x # xs) v = File c"
| "put (Dir es) (x # xs) v =
     (if xs = [] then Dir (AList.update x v es)
      else case map_of es x of
        None \<Rightarrow> Dir es
      | Some m \<Rightarrow> Dir (AList.update x (put m xs v) es))"

fun node_is_dir :: "node \<Rightarrow> bool" where
  "node_is_dir (Dir _) = True"
| "node_is_dir (File _) = False"

subsection \<open>\<^verbatim>\<open>pathlib.Path\<close> of a string\<close>

text \<open>
  \<^verbatim>\<open>pathlib.Path(s)\<close> splits \<open>s\<close> at the slashes and drops empty components and
  single dots; it keeps \<^verbatim>\<open>..\<close>. The path is absolute when \<open>s\<close> begins with a slash.
  \<open>start wd p\<close> is the directory from which the components of \<open>p\<close> are followed: the
  root, or the working directory \<open>wd\<close> for a relative path.
\<close>

fun split_on :: "char \<Rightarrow> string \<Rightarrow> string list" where
  "split_on sep [] = [[]]"
| "split_on sep (c # cs) =
     (if c = sep then [] # split_on sep cs
      else (case split_on sep cs of w # ws \<Rightarrow> (c # w) # ws | [] \<Rightarrow> [[c]]))"

record ppath =
  absolute :: bool
  parts :: "string list"

definition Path :: "string \<Rightarrow> ppath" where
  "Path s = \<lparr> absolute = (take 1 s = ''/''),
             parts = filter (\<lambda>c. c \<noteq> [] \<and> c \<noteq> ''.'') (split_on CHR ''/'' s) \<rparr>"

definition start :: "path \<Rightarrow> ppath \<Rightarrow> path" where
  "start wd p = (if absolute p then [] else wd)"

subsection \<open>Path Resolver: \<^verbatim>\<open>get_absolute_path\<close>\<close>

text \<open>
  \<^verbatim>\<open>Path.resolve(strict)\<close> is \<^verbatim>\<open>os.path.realpath\<close>, whose loop is
  \<open>joinrealpath\<close>: \<^verbatim>\<open>..\<close> drops the last component of the path built so far, any
  other component is appended, and when \<^verbatim>\<open>lstat\<close> of the new path fails the error is
  raised in strict mode and ignored otherwise.

  The source calls \<^verbatim>\<open>pathlib.Path(dir_file).resolve(dir_file)\<close>: the only parameter of
  \<^verbatim>\<open>resolve\<close> is \<^verbatim>\<open>strict\<close>, so the path string is the flag, and a string is true
  when it is not empty.
\<close>

fun joinrealpath :: "node \<Rightarrow> bool \<Rightarrow> path \<Rightarrow> string list \<Rightarrow> error + path" where
  "joinrealpath fs strict p [] = Inr p"
| "joinrealpath fs strict p (c # rest) =
     (if c = ''..'' then joinrealpath fs strict (butlast p) rest
      else case lstat fs (p @ [c]) of
        Inl e \<Rightarrow> if strict then Inl e else joinrealpath fs strict (p @ [c]) rest
      | Inr _ \<Rightarrow> joinrealpath fs strict (p @ [c]) rest)"

definition resolve :: "node \<Rightarrow> path \<Rightarrow> ppath \<Rightarrow> bool \<Rightarrow> error + path" where
  "resolve fs wd p strict = joinrealpath fs strict (start wd p) (parts p)"

definition get_absolute_path :: "node \<Rightarrow> path \<Rightarrow> string \<Rightarrow> error + path" where
  "get_absolute_path fs wd dir_file = resolve fs wd (Path dir_file) (dir_file \<noteq> [])"

subsection \<open>Target Preparer: \<^verbatim>\<open>setup_target_dir\<close>\<close>






subsection \<open>Glob patterns\<close>

text \<open>
  \<^verbatim>\<open>Path.glob\<close> matches the names of a directory against a pattern of \<^verbatim>\<open>fnmatch\<close>,
  with case on a POSIX host: \<^verbatim>\<open>*\<close> is any text, \<^verbatim>\<open>?\<close> any character, \<^verbatim>\<open>[...]\<close> a
  class of characters. The model covers the classes that list their members: no
  negation, no range, no backslash. In such a class every character stands for itself,
  the bar too.
\<close>

datatype gtok = GStar | GAny | GClass "char list" | GLit char

fun glob_class :: "string \<Rightarrow> (char list \<times> string) option" where
  "glob_class [] = None"
| "glob_class (c # cs) =
     (if c = CHR '']'' then Some ([], cs)
      else if c \<in> set (''!-^['' @ [CHR 0x5C]) then None
      else map_option (\<lambda>(cl, rest). (c # cl, rest)) (glob_class cs))"

function glob_compile :: "string \<Rightarrow> gtok list option" where
  "glob_compile [] = Some []"
| "glob_compile (c # cs) =
     (if c = CHR ''*'' then map_option ((#) GStar) (glob_compile cs)
      else if c = CHR ''?'' then map_option ((#) GAny) (glob_compile cs)
      else if c = CHR ''['' then
        (case glob_class cs of
           None \<Rightarrow> None
         | Some (cl, rest) \<Rightarrow>
             if cl = [] then None else map_option ((#) (GClass cl)) (glob_compile rest))
      else map_option ((#) (GLit c)) (glob_compile cs))"
  by pat_completeness auto
termination
proof -
  have le: "length rest \<le> length cs" if "glob_class cs = Some (cl, rest)" for cs cl rest
    using that by (induction cs arbitrary: cl) (auto split: if_splits)
  show ?thesis
    by (relation "measure length") (auto dest: le)
qed

fun glob_match :: "gtok list \<Rightarrow> string \<Rightarrow> bool" where
  "glob_match [] s = (s = [])"
| "glob_match (GStar # ts) [] = glob_match ts []"
| "glob_match (GStar # ts) (c # cs) = (glob_match ts (c # cs) \<or> glob_match (GStar # ts) cs)"
| "glob_match (GAny # ts) [] = False"
| "glob_match (GAny # ts) (c # cs) = glob_match ts cs"
| "glob_match (GClass cl # ts) [] = False"
| "glob_match (GClass cl # ts) (c # cs) = (c \<in> set cl \<and> glob_match ts cs)"
| "glob_match (GLit d # ts) [] = False"
| "glob_match (GLit d # ts) (c # cs) = (c = d \<and> glob_match ts cs)"

text \<open>
  \<open>glob\<close> lists the children of a directory whose name matches, in listing order; a
  path that is no directory has none. \<open>rglob\<close> does so for the directory and, after it,
  for each of its subdirectories in turn, recursively; it yields files and directories.
\<close>

definition glob :: "node \<Rightarrow> path \<Rightarrow> string \<Rightarrow> error + path list" where
  "glob fs dir pattern =
     (case glob_compile pattern of
        None \<Rightarrow> Inl OutsideModel
      | Some g \<Rightarrow>
          (case lstat fs dir of
             Inr (Dir es) \<Rightarrow> Inr (map (\<lambda>(n, x). dir @ [n]) (filter (\<lambda>(n, x). glob_match g n) es))
           | _ \<Rightarrow> Inr []))"

fun rglob_entries :: "gtok list \<Rightarrow> path \<Rightarrow> entries \<Rightarrow> path list" where
  "rglob_entries g dir es =
     map (\<lambda>(n, x). dir @ [n]) (filter (\<lambda>(n, x). glob_match g n) es)
     @ concat (map (\<lambda>(n, x). case x of Dir sub \<Rightarrow> rglob_entries g (dir @ [n]) sub | File _ \<Rightarrow> []) es)"

definition rglob :: "node \<Rightarrow> path \<Rightarrow> string \<Rightarrow> error + path list" where
  "rglob fs dir pattern =
     (case glob_compile pattern of
        None \<Rightarrow> Inl OutsideModel
      | Some g \<Rightarrow>
          (case lstat fs dir of
             Inr (Dir es) \<Rightarrow> Inr (rglob_entries g dir es)
           | _ \<Rightarrow> Inr []))"

subsection \<open>The constants of the script\<close>

definition DIR_PATTERN :: string where
  "DIR_PATTERN = ''*[g|G][a|A][m|M][e|E]*''"

definition FILE_EXTENSION :: string where
  "FILE_EXTENSION = ''*.go''"

definition COMPILE_COMMAND :: "string list" where
  "COMPILE_COMMAND = [''go'', ''build'']"

subsection \<open>Game Directory Finder: \<^verbatim>\<open>find_all_game_paths\<close>\<close>

text \<open>
  The comprehension of the source: the items of \<^verbatim>\<open>source_dir.glob(DIR_PATTERN)\<close> for
  which \<^verbatim>\<open>item.is_dir()\<close> holds.
\<close>

definition find_all_game_paths :: "node \<Rightarrow> path \<Rightarrow> error + path list" where
  "find_all_game_paths fs source_dir =
     (case glob fs source_dir DIR_PATTERN of
        Inl e \<Rightarrow> Inl e
      | Inr items \<Rightarrow>
          Inr (filter (\<lambda>item. case lstat fs item of Inr x \<Rightarrow> node_is_dir x | Inl _ \<Rightarrow> False) items))"

subsection \<open>Directory Materializer: \<^verbatim>\<open>copy_and_overwrite\<close>\<close>

text \<open>
  \<^verbatim>\<open>shutil.copytree(src, dst, dirs_exist_ok=True)\<close> lists the source directory, makes
  the destination directory with \<^verbatim>\<open>os.makedirs(dst, exist_ok=True)\<close> and copies the
  entries one by one: a directory by a recursive call, a file by \<^verbatim>\<open>copy2\<close>. An error
  of one entry is recorded and the loop goes on; at the end \<^verbatim>\<open>shutil.Error\<close> is
  raised when any was recorded.

  \<open>copy2 content n dst\<close> copies a file named \<open>n\<close> onto the destination entry of the
  same name and returns the new entry: a missing entry or a file becomes the file; a
  directory receives the file under the name \<open>n\<close>, as \<^verbatim>\<open>copy2\<close> does for a
  destination that is a directory, and that fails when \<open>n\<close> is a directory there.

  \<open>copy_entries s d\<close> copies the source entries \<open>s\<close> into the destination entries
  \<open>d\<close>; its first component tells whether an error was recorded.
\<close>

definition copy2 :: "string \<Rightarrow> string \<Rightarrow> node option \<Rightarrow> error + node" where
  "copy2 content n dst =
     (case dst of
        None \<Rightarrow> Inr (File content)
      | Some (File _) \<Rightarrow> Inr (File content)
      | Some (Dir es) \<Rightarrow>
          (case map_of es n of
             Some (Dir _) \<Rightarrow> Inl IsADirectoryError
           | _ \<Rightarrow> Inr (Dir (AList.update n (File content) es))))"

fun copy_entries :: "entries \<Rightarrow> entries \<Rightarrow> bool \<times> entries" where
  "copy_entries [] d = (False, d)"
| "copy_entries ((n, File c) # es) d =
     (case copy2 c n (map_of d n) of
        Inl e \<Rightarrow> (True, snd (copy_entries es d))
      | Inr v \<Rightarrow> copy_entries es (AList.update n v d))"
| "copy_entries ((n, Dir ses) # es) d =
     (case map_of d n of
        Some (File _) \<Rightarrow> (True, snd (copy_entries es d))
      | Some (Dir des) \<Rightarrow>
          (let (e1, des') = copy_entries ses des;
               (e2, d') = copy_entries es (AList.update n (Dir des') d)
           in (e1 \<or> e2, d'))
      | None \<Rightarrow>
          (let (e1, des') = copy_entries ses [];
               (e2, d') = copy_entries es (AList.update n (Dir des') d)
           in (e1 \<or> e2, d')))"

text \<open>
  \<open>makedirs\<close> creates the missing directories along a path and accepts those that
  exist. In \<open>copytree\<close> the source and the destination are canonical absolute paths;
  when one lies within the other the copy reads what it writes, which is outside the
  model. A failed copy returns the error only: the script ends there.
\<close>

fun makedirs :: "node \<Rightarrow> path \<Rightarrow> error + node" where
  "makedirs n [] = (case n of Dir _ \<Rightarrow> Inr n | File _ \<Rightarrow> Inl FileExistsError)"
| "makedirs (File c) (x # xs) = Inl NotADirectoryError"
| "makedirs (Dir es) (x # xs) =
     (case makedirs (case map_of es x of None \<Rightarrow> Dir [] | Some m \<Rightarrow> m) xs of
        Inl e \<Rightarrow> Inl e
      | Inr m' \<Rightarrow> Inr (Dir (AList.update x m' es)))"

definition overlap :: "path \<Rightarrow> path \<Rightarrow> bool" where
  "overlap p q = (take (length q) p = q \<or> take (length p) q = p)"

definition copytree :: "node \<Rightarrow> path \<Rightarrow> path \<Rightarrow> error + node" where
  "copytree fs src dst =
     (if overlap src dst then Inl OutsideModel
      else case lstat fs src of
        Inl e \<Rightarrow> Inl e
      | Inr (File _) \<Rightarrow> Inl NotADirectoryError
      | Inr (Dir ses) \<Rightarrow>
          (case makedirs fs dst of
             Inl e \<Rightarrow> Inl e
           | Inr fs' \<Rightarrow>
               (case lstat fs' dst of
                  Inr (Dir des) \<Rightarrow>
                    (case copy_entries ses des of
                       (True, _) \<Rightarrow> Inl ShutilError
                     | (False, des') \<Rightarrow> Inr (put fs' dst (Dir des')))
                | _ \<Rightarrow> Inl NotADirectoryError)))"

definition copy_and_overwrite :: "node \<Rightarrow> path \<Rightarrow> path \<Rightarrow> error + node" where
  "copy_and_overwrite fs source dest = copytree fs source dest"

subsection \<open>Metadata Writer: \<^verbatim>\<open>make_json_metadata_file\<close>\<close>

text \<open>
  The dictionary \<^verbatim>\<open>data\<close> has a list of strings and a length as its values.
  \<open>json_dumps\<close> is the text \<^verbatim>\<open>json.dump\<close> writes for it with its default settings:
  the keys in insertion order, \<^verbatim>\<open>", "\<close> and \<^verbatim>\<open>": "\<close> as separators, and in a string
  every character outside the printable ASCII range escaped.
\<close>

datatype jvalue = JList "string list" | JInt nat

definition hex_digit :: "nat \<Rightarrow> char" where
  "hex_digit n = (''0123456789abcdef'' ! (n mod 16))"

definition json_char :: "char \<Rightarrow> string" where
  "json_char c =
     (let n = (of_char c :: nat) in
      if c = CHR 0x22 then [CHR 0x5C, CHR 0x22]
      else if c = CHR 0x5C then [CHR 0x5C, CHR 0x5C]
      else if c = CHR 0x0A then [CHR 0x5C, CHR ''n'']
      else if c = CHR 0x0D then [CHR 0x5C, CHR ''r'']
      else if c = CHR 0x09 then [CHR 0x5C, CHR ''t'']
      else if c = CHR 0x08 then [CHR 0x5C, CHR ''b'']
      else if c = CHR 0x0C then [CHR 0x5C, CHR ''f'']
      else if 32 \<le> n \<and> n \<le> 126 then [c]
      else [CHR 0x5C, CHR ''u'', CHR ''0'', CHR ''0'', hex_digit (n div 16), hex_digit n])"

definition json_string :: "string \<Rightarrow> string" where
  "json_string s = [CHR 0x22] @ concat (map json_char s) @ [CHR 0x22]"

fun join :: "string \<Rightarrow> string list \<Rightarrow> string" where
  "join sep [] = []"
| "join sep [x] = x"
| "join sep (x # y # ys) = x @ sep @ join sep (y # ys)"

function digits :: "nat \<Rightarrow> string" where
  "digits n =
     (if n < 10 then [''0123456789'' ! n]
      else digits (n div 10) @ [''0123456789'' ! (n mod 10)])"
  by pat_completeness auto
termination
  by (relation "measure id") auto

declare digits.simps [simp del]

fun json_value :: "jvalue \<Rightarrow> string" where
  "json_value (JList xs) = ''['' @ join '', '' (map json_string xs) @ '']''"
| "json_value (JInt n) = digits n"

definition json_dumps :: "(string \<times> jvalue) list \<Rightarrow> string" where
  "json_dumps obj =
     ''{'' @ join '', '' (map (\<lambda>(k, v). json_string k @ '': '' @ json_value v) obj) @ ''}''"

text \<open>
  \<open>open_w\<close> is \<^verbatim>\<open>open(mode="w")\<close>: the parent must be a directory and the path must
  not be one; the file is created or emptied. The writer then stores the text.
\<close>

definition open_w :: "node \<Rightarrow> path \<Rightarrow> error + node" where
  "open_w fs p =
     (if p = [] then Inl IsADirectoryError
      else case lstat fs (butlast p) of
        Inl e \<Rightarrow> Inl e
      | Inr (File _) \<Rightarrow> Inl NotADirectoryError
      | Inr (Dir es) \<Rightarrow>
          (case map_of es (last p) of
             Some (Dir _) \<Rightarrow> Inl IsADirectoryError
           | _ \<Rightarrow> Inr (put fs p (File []))))"

definition make_json_metadata_file :: "node \<Rightarrow> path \<Rightarrow> string list \<Rightarrow> error + node" where
  "make_json_metadata_file fs path dirs =
     (let data = [(''game_names'', JList dirs), (''number_of_games'', JInt (length dirs))];
          json_path = path @ [''metadata.json'']
      in case open_w fs json_path of
           Inl e \<Rightarrow> Inl e
         | Inr fs' \<Rightarrow> Inr (put fs' json_path (File (json_dumps data))))"

subsection \<open>Build Runner: \<^verbatim>\<open>compile_code_files\<close>\<close>

text \<open>
  The state of the runner is the working directory of the process and the list of the
  commands it has tried to launch, each with the directory it was launched in. What a
  command does when it is launched is a parameter: it exits with a status, or it cannot
  be launched and \<^verbatim>\<open>subprocess.run\<close> raises. The files a build writes are not modelled.

  \<open>compile_files\<close> is the body of the loop: record the working directory, change to the
  directory of the file, run the command with the bare name of the file, change back.
  Nothing catches an exception of \<^verbatim>\<open>run\<close>, so a failed launch ends the loop before the
  working directory is restored.
\<close>

datatype outcome = Exited int | LaunchFailed

type_synonym process = "path \<Rightarrow> string list \<Rightarrow> outcome"

record runner =
  cwd :: path
  attempts :: "(path \<times> string list) list"

fun compile_files :: "process \<Rightarrow> path list \<Rightarrow> runner \<Rightarrow> (error + unit) \<times> runner" where
  "compile_files run [] st = (Inr (), st)"
| "compile_files run (file # files) st =
     (let cwd0 = cwd st;
          st1 = st\<lparr>cwd := butlast file\<rparr>;
          command = COMPILE_COMMAND @ [name file];
          st2 = st1\<lparr>attempts := attempts st1 @ [(cwd st1, command)]\<rparr>
      in case run (cwd st1) command of
           LaunchFailed \<Rightarrow> (Inl FileNotFoundError, st2)
         | Exited rc \<Rightarrow> compile_files run files (st2\<lparr>cwd := cwd0\<rparr>))"

definition compile_code_files :: "process \<Rightarrow> node \<Rightarrow> path \<Rightarrow> runner \<Rightarrow> (error + unit) \<times> runner" where
  "compile_code_files run fs path st =
     (case rglob fs path FILE_EXTENSION of
        Inl e \<Rightarrow> (Inl e, st)
      | Inr files \<Rightarrow> compile_files run files st)"

section \<open>Notions of the specification\<close>

subsection \<open>Substrings without regard to case\<close>

text \<open>
  The specification speaks of a pattern substring found case-insensitively. These
  definitions follow its words, to be compared with the code: \<open>literal\<close> patterns have
  no special character, \<open>first_occurrence pat s\<close> splits \<open>s\<close> at the leftmost
  case-insensitive occurrence of \<open>pat\<close> into the text before it, the occurrence in its
  original case and the text after it.
\<close>

definition literal :: "string \<Rightarrow> bool" where
  "literal pat = (\<forall>c \<in> set pat. \<not> special c)"

definition ci_prefix :: "string \<Rightarrow> string \<Rightarrow> bool" where
  "ci_prefix pat s =
     (length pat \<le> length s \<and> map lower (take (length pat) s) = map lower pat)"

fun first_occurrence :: "string \<Rightarrow> string \<Rightarrow> (string \<times> string \<times> string) option" where
  "first_occurrence pat [] = (if pat = [] then Some ([], [], []) else None)"
| "first_occurrence pat (c # cs) =
     (if ci_prefix pat (c # cs)
      then Some ([], take (length pat) (c # cs), drop (length pat) (c # cs))
      else map_option (\<lambda>(pre, m, post). (c # pre, m, post)) (first_occurrence pat cs))"

definition contains_ci :: "string \<Rightarrow> string \<Rightarrow> bool" where
  "contains_ci pat s = (first_occurrence pat s \<noteq> None)"

definition strip_first :: "string \<Rightarrow> string \<Rightarrow> string option" where
  \<comment> \<open>the specification's transformer: only the first occurrence goes.\<close>
  "strip_first pat s = map_option (\<lambda>(pre, m, post). pre @ post) (first_occurrence pat s)"

definition strip_copies :: "string \<Rightarrow> string \<Rightarrow> string option" where
  \<comment> \<open>the first occurrence goes, and with it every later copy of the same text in the
      same case.\<close>
  "strip_copies pat s =
     map_option (\<lambda>(pre, m, post). pre @ replace post m []) (first_occurrence pat s)"

definition regex_match_at :: "item list \<Rightarrow> string \<Rightarrow> nat \<Rightarrow> string \<Rightarrow> bool" where
  \<comment> \<open>\<open>m\<close> is the text the compiled pattern matches at position \<open>k\<close> of \<open>s\<close>.\<close>
  "regex_match_at its s k m =
     (k \<le> length s \<and> match_here its (drop k s) = Some (length m) \<and>
      m = take (length m) (drop k s))"

subsection \<open>Well-formed directories, matched files\<close>

text \<open>
  In a file system the names within one directory are distinct; \<open>wf_entries\<close> says so
  of a directory's entries and of the directories below. \<open>matched_files\<close> are the
  paths the Build Runner enumerates, and \<open>build_of\<close> is the launch it makes for one of
  them: the directory of the file and the command.
\<close>

fun wf_entries :: "entries \<Rightarrow> bool" where
  "wf_entries [] = True"
| "wf_entries ((n, File c) # es) = (n \<notin> fst ` set es \<and> wf_entries es)"
| "wf_entries ((n, Dir sub) # es) = (n \<notin> fst ` set es \<and> wf_entries sub \<and> wf_entries es)"

definition matched_files :: "node \<Rightarrow> path \<Rightarrow> path list" where
  "matched_files fs path =
     (case rglob fs path FILE_EXTENSION of Inl _ \<Rightarrow> [] | Inr files \<Rightarrow> files)"

definition build_of :: "path \<Rightarrow> path \<times> string list" where
  "build_of file = (butlast file, COMPILE_COMMAND @ [name file])"

subsection \<open>Reading the metadata back\<close>

text \<open>
  The specification asks that the values of \<^verbatim>\<open>metadata.json\<close> round-trip exactly.
  \<open>json_loads\<close> reads a text as \<^verbatim>\<open>json.loads\<close> does, for the objects whose values
  are lists of strings or natural numbers; on any other text, malformed or not, it is
  \<open>None\<close>. \<open>tokens\<close> splits the text into punctuation, strings and numbers, skipping
  white space; a string ends at the first quote that no backslash escapes, may not hold
  a control character, and its escapes are decoded (\<^verbatim>\<open>\uXXXX\<close> for code points below
  256); a number is \<^verbatim>\<open>0\<close> or a digit sequence that does not begin with \<^verbatim>\<open>0\<close>. The
  parsers follow the grammar of JSON on the tokens. Like a Python dictionary, the result
  keeps for a repeated key its first place and its last value. \<open>member_text\<close> is the
  text \<open>json_dumps\<close> writes for one member.
\<close>

datatype token = LBrace | RBrace | LBracket | RBracket | Comma | Colon | Str string | Num nat

definition is_ws :: "char \<Rightarrow> bool" where
  "is_ws c = (c = CHR 0x20 \<or> c = CHR 0x09 \<or> c = CHR 0x0A \<or> c = CHR 0x0D)"

definition is_digit :: "char \<Rightarrow> bool" where
  "is_digit c = (48 \<le> (of_char c :: nat) \<and> (of_char c :: nat) \<le> 57)"

definition hex_val :: "char \<Rightarrow> nat option" where
  "hex_val c =
     (let n = (of_char c :: nat) in
      if 48 \<le> n \<and> n \<le> 57 then Some (n - 48)
      else if 97 \<le> n \<and> n \<le> 102 then Some (n - 87)
      else if 65 \<le> n \<and> n \<le> 70 then Some (n - 55)
      else None)"

definition unescape :: "char \<Rightarrow> char option" where
  "unescape e =
     (if e = CHR 0x22 then Some (CHR 0x22)
      else if e = CHR 0x5C then Some (CHR 0x5C)
      else if e = CHR ''/'' then Some (CHR ''/'')
      else if e = CHR ''b'' then Some (CHR 0x08)
      else if e = CHR ''f'' then Some (CHR 0x0C)
      else if e = CHR ''n'' then Some (CHR 0x0A)
      else if e = CHR ''r'' then Some (CHR 0x0D)
      else if e = CHR ''t'' then Some (CHR 0x09)
      else None)"

definition unicode_escape :: "string \<Rightarrow> char option" where
  "unicode_escape h =
     (case map hex_val h of
        [Some a, Some b, Some x, Some y] \<Rightarrow>
          if a = 0 \<and> b = 0 then Some (char_of (16 * x + y)) else None
      | _ \<Rightarrow> None)"

fun read_string_body :: "string \<Rightarrow> (string \<times> string) option" where
  "read_string_body [] = None"
| "read_string_body [c] = (if c = CHR 0x22 then Some ([], []) else None)"
| "read_string_body (c # e # cs) =
     (if c = CHR 0x22 then Some ([], e # cs)
      else if c = CHR 0x5C then
        (if e = CHR ''u'' then
           (case unicode_escape (take 4 cs) of
              None \<Rightarrow> None
            | Some d \<Rightarrow> map_option (\<lambda>(s, r). (d # s, r)) (read_string_body (drop 4 cs)))
         else
           (case unescape e of
              None \<Rightarrow> None
            | Some d \<Rightarrow> map_option (\<lambda>(s, r). (d # s, r)) (read_string_body cs)))
      else if (of_char c :: nat) < 32 then None
      else map_option (\<lambda>(s, r). (c # s, r)) (read_string_body (e # cs)))"

definition nat_of_digits :: "string \<Rightarrow> nat" where
  "nat_of_digits ds = foldl (\<lambda>n d. 10 * n + (of_char d - 48)) 0 ds"

function tokens :: "string \<Rightarrow> token list option" where
  "tokens [] = Some []"
| "tokens (c # cs) =
     (if is_ws c then tokens cs
      else if c = CHR ''{'' then map_option (Cons LBrace) (tokens cs)
      else if c = CHR ''}'' then map_option (Cons RBrace) (tokens cs)
      else if c = CHR ''['' then map_option (Cons LBracket) (tokens cs)
      else if c = CHR '']'' then map_option (Cons RBracket) (tokens cs)
      else if c = CHR '','' then map_option (Cons Comma) (tokens cs)
      else if c = CHR '':'' then map_option (Cons Colon) (tokens cs)
      else if c = CHR 0x22 then
        (case read_string_body cs of
           None \<Rightarrow> None
         | Some (s, r) \<Rightarrow> map_option (Cons (Str s)) (tokens r))
      else if c = CHR ''0'' then map_option (Cons (Num 0)) (tokens cs)
      else if is_digit c then
        map_option (Cons (Num (nat_of_digits (c # takeWhile is_digit cs))))
          (tokens (dropWhile is_digit cs))
      else None)"
  by pat_completeness auto
termination
proof (relation "measure length")
  have le: "read_string_body s = Some (x, r) \<Longrightarrow> length r \<le> length s" for s x r
  proof (induction s arbitrary: x r rule: read_string_body.induct)
    case 1
    then show ?case by simp
  next
    case (2 c)
    then show ?case by (simp split: if_splits)
  next
    case (3 c e cs)
    show ?case
    proof (cases "c = CHR 0x22")
      case True
      with "3.prems" show ?thesis by simp
    next
      case q: False
      show ?thesis
      proof (cases "c = CHR 0x5C")
        case True
        show ?thesis
        proof (cases "e = CHR ''u''")
          case u: True
          with q True "3.prems" obtain d s' where
            d: "unicode_escape (take 4 cs) = Some d"
            and r: "read_string_body (drop 4 cs) = Some (s', r)"
            by (auto split: option.splits)
          from "3.IH"(1)[OF q True u d r] show ?thesis by simp
        next
          case u: False
          with q True "3.prems" obtain d s' where
            d: "unescape e = Some d" and r: "read_string_body cs = Some (s', r)"
            by (auto split: option.splits)
          from "3.IH"(2)[OF q True u d r] show ?thesis by simp
        qed
      next
        case False
        with q "3.prems" obtain s' where
          n: "\<not> (of_char c :: nat) < 32" and r: "read_string_body (e # cs) = Some (s', r)"
          by (auto split: if_splits)
        from "3.IH"(3)[OF q False n r] show ?thesis by simp
      qed
    qed
  qed
  show "wf (measure length)" by simp
  show "(r, c # cs) \<in> measure length"
    if "read_string_body cs = Some xa" "(s, r) = xa" for c cs xa s r
    using le[of cs s r] that by auto
  show "(dropWhile is_digit cs, c # cs) \<in> measure length" for c cs
    using length_dropWhile_le[of is_digit cs] by simp
qed simp_all

fun parse_more :: "token list \<Rightarrow> (string list \<times> token list) option" where
  "parse_more (RBracket # ts) = Some ([], ts)"
| "parse_more (Comma # Str s # ts) = map_option (\<lambda>(xs, r). (s # xs, r)) (parse_more ts)"
| "parse_more _ = None"

fun parse_list :: "token list \<Rightarrow> (string list \<times> token list) option" where
  "parse_list (RBracket # ts) = Some ([], ts)"
| "parse_list (Str s # ts) = map_option (\<lambda>(xs, r). (s # xs, r)) (parse_more ts)"
| "parse_list _ = None"

fun parse_value :: "token list \<Rightarrow> (jvalue \<times> token list) option" where
  "parse_value (Num n # ts) = Some (JInt n, ts)"
| "parse_value (LBracket # ts) = map_option (\<lambda>(xs, r). (JList xs, r)) (parse_list ts)"
| "parse_value _ = None"

function parse_members :: "token list \<Rightarrow> ((string \<times> jvalue) list \<times> token list) option" where
  "parse_members ts =
     (case ts of
        RBrace # r \<Rightarrow> Some ([], r)
      | Comma # Str k # Colon # r \<Rightarrow>
          (case parse_value r of
             None \<Rightarrow> None
           | Some (v, r') \<Rightarrow> map_option (\<lambda>(ms, t). ((k, v) # ms, t)) (parse_members r'))
      | _ \<Rightarrow> None)"
  by pat_completeness auto
termination
proof (relation "measure length")
  have more: "parse_more ts = Some (xs, r) \<Longrightarrow> length r \<le> length ts" for ts xs r
    by (induction ts arbitrary: xs r rule: parse_more.induct) (auto split: if_splits)
  have lst: "parse_list ts = Some (xs, r) \<Longrightarrow> length r \<le> length ts" for ts xs r
    by (cases ts rule: parse_list.cases) (auto dest: more)
  have val: "parse_value ts = Some (v, r) \<Longrightarrow> length r \<le> length ts" for ts v r
    by (cases ts rule: parse_value.cases) (auto dest: lst)
  show "wf (measure length)" by simp
  show "(r', ts) \<in> measure length"
    if "ts = x21 # x22" "x21 = Comma" "x22 = x21a # x22a" "x21a = Str k" "x22a = x21b # r"
       "x21b = Colon" "parse_value r = Some x2" "(v, r') = x2"
    for ts x21 x22 x21a x22a k x21b r x2 v r'
    using val[of r v r'] that by auto
qed

declare parse_members.simps [simp del]

definition parse_object :: "token list \<Rightarrow> ((string \<times> jvalue) list \<times> token list) option" where
  "parse_object ts =
     (case ts of
        LBrace # RBrace # r \<Rightarrow> Some ([], r)
      | LBrace # Str k # Colon # r \<Rightarrow>
          (case parse_value r of
             None \<Rightarrow> None
           | Some (v, r') \<Rightarrow> map_option (\<lambda>(ms, t). ((k, v) # ms, t)) (parse_members r'))
      | _ \<Rightarrow> None)"

definition json_loads :: "string \<Rightarrow> (string \<times> jvalue) list option" where
  "json_loads text =
     (case tokens text of
        None \<Rightarrow> None
      | Some ts \<Rightarrow>
          (case parse_object ts of
             Some (ms, []) \<Rightarrow> Some (fold (\<lambda>(k, v). AList.update k v) ms [])
           | _ \<Rightarrow> None))"

definition member_text :: "string \<times> jvalue \<Rightarrow> string" where
  "member_text = (\<lambda>(k, v). json_string k @ '': '' @ json_value v)"

subsection \<open>The place of a file copied onto a directory\<close>

text \<open>
  \<open>written_into s q\<close>: the path \<open>q\<close> is \<open>f/n\<close> for a regular file \<open>f\<close> of the source
  entries \<open>s\<close> whose name is \<open>n\<close>. This is where a merge copy writes the source file
  \<open>f\<close> when the destination has a directory at \<open>f\<close>.
\<close>

definition written_into :: "entries \<Rightarrow> path \<Rightarrow> bool" where
  "written_into s q =
     (2 \<le> length q \<and> last q = last (butlast q) \<and>
      (case lstat (Dir s) (butlast q) of Inr (File _) \<Rightarrow> True | _ \<Rightarrow> False))"

subsection \<open>Example file systems and processes\<close>

definition home_fs :: node where
  \<comment> \<open>a home directory \<^verbatim>\<open>/home/u\<close> with a file and an empty directory \<^verbatim>\<open>harvest\<close>.\<close>
  "home_fs = Dir [(''home'', Dir [(''u'', Dir [(''f.txt'', File ''hi''), (''harvest'', Dir [])])])]"

definition source_fs :: node where
  \<comment> \<open>a source root \<^verbatim>\<open>/src\<close>; one of its directories is named \<^verbatim>\<open>g|me\<close>.\<close>
  "source_fs =
     Dir [(''src'', Dir [(''GameOne'', Dir []), (''MyGameTwo'', Dir [(''main.go'', File ''x'')]),
                         (''notagame'', Dir []), (''GAME3'', Dir []), (''game.txt'', File ''''),
                         (''g|me'', Dir []), (''other'', Dir [])])]"

definition harvest_fs :: node where
  \<comment> \<open>a destination root with three matched build-source files.\<close>
  "harvest_fs =
     Dir [(''harvest'', Dir [(''a.go'', File ''''),
                             (''One'', Dir [(''b.go'', File ''''), (''c.go'', File '''')]),
                             (''metadata.json'', File '''')])]"

definition second_fails :: process where
  \<comment> \<open>the build of \<^verbatim>\<open>b.go\<close> exits with status 2, every other build with 0.\<close>
  "second_fails d c = (if c = [''go'', ''build'', ''b.go''] then Exited 2 else Exited 0)"

definition second_missing :: process where
  \<comment> \<open>the build of \<^verbatim>\<open>b.go\<close> cannot be launched.\<close>
  "second_missing d c = (if c = [''go'', ''build'', ''b.go''] then LaunchFailed else Exited 0)"

definition stale_fs :: node where
  \<comment> \<open>a destination root that holds a metadata file of an earlier run.\<close>
  "stale_fs = Dir [(''harvest'', Dir [(''One'', Dir []), (''metadata.json'', File ''stale'')])]"

definition stale_fs_written :: node where
  "stale_fs_written =
     Dir [(''harvest'', Dir [(''One'', Dir []),
       (''metadata.json'',
        File (json_dumps [(''game_names'', JList [''One'', ''MyTwo'']),
                          (''number_of_games'', JInt 2)]))])]"

definition clash_fs :: node where
  \<comment> \<open>the source has a file \<^verbatim>\<open>x\<close> where the destination has a directory \<^verbatim>\<open>x\<close>.\<close>
  "clash_fs = Dir [(''src'', Dir [(''x'', File ''new'')]),
                   (''dst'', Dir [(''x'', Dir [(''x'', File ''old'')])])]"

definition clash_fs_copied :: node where
  "clash_fs_copied = Dir [(''src'', Dir [(''x'', File ''new'')]),
                          (''dst'', Dir [(''x'', Dir [(''x'', File ''new'')])])]"

definition merge_fs :: node where
  \<comment> \<open>a game directory and a destination that holds an older copy and entries of its own,
      among them a directory \<^verbatim>\<open>README\<close> where the source has a file of that name.\<close>
  "merge_fs =
     Dir [(''src'', Dir [(''GameOne'', Dir [(''main.go'', File ''package main''),
                                            (''README'', File ''read me''),
                                            (''assets'', Dir [(''a.png'', File ''A'')])])]),
          (''harvest'', Dir [(''One'', Dir [(''main.go'', File ''stale''),
                                            (''notes.txt'', File ''keep''),
                                            (''README'', Dir [(''old.txt'', File ''O'')]),
                                            (''assets'', Dir [(''b.png'', File ''B'')])])])]"

definition merge_fs_copied :: node where
  "merge_fs_copied =
     Dir [(''src'', Dir [(''GameOne'', Dir [(''main.go'', File ''package main''),
                                            (''README'', File ''read me''),
                                            (''assets'', Dir [(''a.png'', File ''A'')])])]),
          (''harvest'', Dir [(''One'', Dir [(''main.go'', File ''package main''),
                                            (''notes.txt'', File ''keep''),
                                            (''README'', Dir [(''old.txt'', File ''O''),
                                                              (''README'', File ''read me'')]),
                                            (''assets'', Dir [(''b.png'', File ''B''),
                                                              (''a.png'', File ''A'')])])])]"


section \<open>Properties\<close>

subsection \<open>Literal patterns\<close>

lemma compile_literal: "literal pat \<Longrightarrow> compile pat = Inr (map (\<lambda>c. Once (Lit c)) pat)"
proof (induction pat rule: compile.induct)
  case 1
  then show ?case by simp
next
  case (2 c)
  then show ?case by (auto simp: literal_def atom_of_def special_def)
next
  case (3 c d cs)
  from "3.prems" have c: "\<not> special c" and d: "\<not> special d" and r: "literal (d # cs)"
    by (auto simp: literal_def)
  from c have c1: "c \<noteq> CHR ''*''" "atom_of c = Some (Lit c)"
    by (auto simp: special_def atom_of_def)
  from d have d1: "d \<noteq> CHR ''*''" by (auto simp: special_def)
  from "3.IH"(2)[OF c1(1) c1(2) d1 r] c1 d1 show ?case by simp
qed

lemma match_here_literal:
  "match_here (map (\<lambda>c. Once (Lit c)) pat) s = (if ci_prefix pat s then Some (length pat) else None)"
proof (induction pat arbitrary: s)
  case Nil
  then show ?case by (simp add: ci_prefix_def)
next
  case (Cons a pat)
  show ?case
  proof (cases s)
    case Nil
    then show ?thesis by (simp add: ci_prefix_def)
  next
    case (Cons c cs)
    then show ?thesis using Cons.IH[of cs] by (auto simp: ci_prefix_def)
  qed
qed

lemma first_occurrence_SomeD:
  "first_occurrence pat s = Some (pre, m, post) \<Longrightarrow>
     s = pre @ m @ post \<and> length m = length pat \<and> map lower m = map lower pat \<and>
     (\<forall>k < length pre. \<not> ci_prefix pat (drop k s))"
proof (induction s arbitrary: pre)
  case Nil
  then show ?case by (auto split: if_splits)
next
  case (Cons c cs)
  show ?case
  proof (cases "ci_prefix pat (c # cs)")
    case True
    with Cons.prems show ?thesis by (auto simp: ci_prefix_def)
  next
    case False
    with Cons.prems obtain pre' where p: "pre = c # pre'" "first_occurrence pat cs = Some (pre', m, post)"
      by auto
    from Cons.IH[OF p(2)] have ih: "cs = pre' @ m @ post" "length m = length pat" "map lower m = map lower pat"
      "\<forall>k < length pre'. \<not> ci_prefix pat (drop k cs)" by auto
    have "\<not> ci_prefix pat (drop k (c # cs))" if "k < length pre" for k
    proof (cases k)
      case 0 then show ?thesis using False by simp
    next
      case (Suc j) then show ?thesis using that ih(4) p(1) by simp
    qed
    with ih p(1) show ?thesis by simp
  qed
qed

lemma first_occurrence_NoneD:
  "first_occurrence pat s = None \<Longrightarrow> k \<le> length s \<Longrightarrow> \<not> ci_prefix pat (drop k s)"
proof (induction s arbitrary: k)
  case Nil
  then show ?case by (auto simp: ci_prefix_def split: if_splits)
next
  case (Cons c cs)
  then show ?case by (cases k) (auto split: if_splits)
qed

lemma scan_literal_None:
  "first_occurrence pat s = None \<Longrightarrow> scan (map (\<lambda>c. Once (Lit c)) pat) False s = []"
proof (induction s)
  case Nil
  then show ?case by (subst scan.simps) (auto simp: match_here_literal ci_prefix_def split: if_splits)
next
  case (Cons c cs)
  then show ?case by (subst scan.simps) (auto simp: match_here_literal split: if_splits)
qed

lemma scan_literal_Some:
  "first_occurrence pat s = Some (pre, m, post) \<Longrightarrow>
     \<exists>ms. scan (map (\<lambda>c. Once (Lit c)) pat) False s = m # ms"
proof (induction s arbitrary: pre)
  case Nil
  then show ?case by (subst scan.simps) (auto simp: match_here_literal ci_prefix_def split: if_splits)
next
  case (Cons c cs)
  show ?case
  proof (cases "ci_prefix pat (c # cs)")
    case True
    with Cons.prems show ?thesis by (subst scan.simps) (auto simp: match_here_literal)
  next
    case False
    with Cons.prems obtain pre' where "first_occurrence pat cs = Some (pre', m, post)" by auto
    from Cons.IH[OF this] False show ?thesis by (subst scan.simps) (auto simp: match_here_literal)
  qed
qed

lemma replace_first_occurrence:
  "first_occurrence pat s = Some (pre, m, post) \<Longrightarrow> replace s m [] = pre @ replace post m []"
proof (induction s arbitrary: pre)
  case Nil
  then show ?case by (auto split: if_splits)
next
  case (Cons c cs)
  show ?case
  proof (cases "ci_prefix pat (c # cs)")
    case True
    with Cons.prems have e: "pre = []" "m = take (length pat) (c # cs)" "post = drop (length pat) (c # cs)"
      by auto
    from True have l: "length m = length pat" using e by (simp add: ci_prefix_def)
    show ?thesis
    proof (cases "m = []")
      case True
      then show ?thesis using e l by simp
    next
      case False
      then show ?thesis using e l by (subst replace.simps) simp
    qed
  next
    case False
    with Cons.prems obtain pre' where p: "pre = c # pre'" "first_occurrence pat cs = Some (pre', m, post)"
      by auto
    from first_occurrence_SomeD[OF p(2)] have m: "length m = length pat" "map lower m = map lower pat"
      by auto
    have ne: "take (length m) (c # cs) \<noteq> m"
    proof
      assume "take (length m) (c # cs) = m"
      then have "ci_prefix pat (c # cs)" using m unfolding ci_prefix_def
        by (metis length_take min.absorb_iff2 nat_le_linear take_all)
      with False show False by simp
    qed
    have mne: "m \<noteq> []"
    proof
      assume "m = []"
      with m have "pat = []" by simp
      then have "ci_prefix pat (c # cs)" by (simp add: ci_prefix_def)
      with False show False by simp
    qed
    show ?thesis using Cons.IH[OF p(2)] ne mne p(1) by (subst replace.simps) simp
  qed
qed

lemma findall_literal:
  "literal pat \<Longrightarrow> findall pat s = Inr (scan (map (\<lambda>c. Once (Lit c)) pat) False s)"
  by (simp add: findall_def compile_literal)

lemma get_names_literal_step:
  assumes "literal pat"
  shows "get_names_from_paths (p # ps) pat =
     (case strip_copies pat (name p) of
        None \<Rightarrow> Inl IndexError
      | Some n \<Rightarrow> (case get_names_from_paths ps pat of Inl e \<Rightarrow> Inl e | Inr ns \<Rightarrow> Inr (n # ns)))"
proof (cases "first_occurrence pat (name p)")
  case None
  then show ?thesis
    using assms by (simp add: findall_literal scan_literal_None strip_copies_def)
next
  case (Some t)
  obtain pre m post where t: "t = (pre, m, post)" by (cases t)
  from scan_literal_Some[of pat "name p" pre m post] Some t
  obtain ms where ms: "scan (map (\<lambda>c. Once (Lit c)) pat) False (name p) = m # ms" by auto
  from replace_first_occurrence[of pat "name p" pre m post] Some t
  have r: "replace (name p) m [] = pre @ replace post m []" by simp
  show ?thesis using assms Some t ms r
    by (simp add: findall_literal strip_copies_def split: sum.splits)
qed

subsection \<open>Matches of a compiled pattern\<close>

lemma scan_head_is_match:
  "scan its adv s = m # ms \<Longrightarrow>
     \<exists>k \<le> length s. match_here its (drop k s) = Some (length m) \<and> m = take (length m) (drop k s)"
proof (induction its adv s rule: scan.induct)
  case (1 its adv s)
  show ?case
  proof (cases "match_here its s")
    case None
    with "1.prems" obtain c cs where s: "s = c # cs" and r: "scan its False cs = m # ms"
      by (subst (asm) scan.simps) (auto split: list.splits)
    from "1.IH"(1)[OF None s r] obtain k where "k \<le> length cs"
      "match_here its (drop k cs) = Some (length m)" "m = take (length m) (drop k cs)" by blast
    then show ?thesis using s by (intro exI[of _ "Suc k"]) simp
  next
    case (Some n)
    show ?thesis
    proof (cases "n = 0")
      case True
      show ?thesis
      proof (cases adv)
        case True
        with \<open>n = 0\<close> Some "1.prems" obtain c cs where s: "s = c # cs" and r: "scan its False cs = m # ms"
          by (subst (asm) scan.simps) (auto split: list.splits)
        from "1.IH"(2)[OF Some \<open>n = 0\<close> True s r] obtain k where "k \<le> length cs"
          "match_here its (drop k cs) = Some (length m)" "m = take (length m) (drop k cs)" by blast
        then show ?thesis using s by (intro exI[of _ "Suc k"]) simp
      next
        case False
        with \<open>n = 0\<close> Some "1.prems" have "m = []"
          by (subst (asm) scan.simps) auto
        then show ?thesis using Some \<open>n = 0\<close> by (intro exI[of _ 0]) simp
      qed
    next
      case False
      with Some "1.prems" have m: "m = take n s"
        by (subst (asm) scan.simps) auto
      have "n \<le> length s" 
        using Some by (induction its s arbitrary: n rule: match_here.induct)
       (auto split: if_splits option.splits)
      then show ?thesis using Some m by (intro exI[of _ 0]) simp
    qed
  qed
qed

lemma get_names_regex:
  "compile pat = Inr its \<Longrightarrow> get_names_from_paths paths pat = Inr names \<Longrightarrow>
     list_all2 (\<lambda>p n. \<exists>k m. regex_match_at its (name p) k m \<and> n = replace (name p) m [])
       paths names"
proof (induction paths arbitrary: names)
  case Nil
  then show ?case by simp
next
  case (Cons p ps)
  from Cons.prems obtain m ms ns where
    s: "scan its False (name p) = m # ms" and
    r: "get_names_from_paths ps pat = Inr ns" and
    n: "names = replace (name p) m [] # ns"
    by (auto simp: findall_def split: sum.splits list.splits)
  from scan_head_is_match[OF s] have "\<exists>k. regex_match_at its (name p) k m"
    by (auto simp: regex_match_at_def)
  with Cons.IH[OF Cons.prems(1) r] n show ?case by auto
qed

lemma get_names_no_match:
  assumes "compile pat = Inr its" and "q \<in> set paths" and "scan its False (name q) = []"
  shows "get_names_from_paths paths pat = Inl IndexError"
  using assms(2)
proof (induction paths)
  case Nil
  then show ?case by simp
next
  case (Cons r rs)
  show ?case
  proof (cases "scan its False (name r)")
    case Nil
    with assms(1) show ?thesis by (simp add: findall_def)
  next
    case (Cons m ms)
    with assms(3) have "r \<noteq> q" by auto
    with Cons.prems Cons.IH have "get_names_from_paths rs pat = Inl IndexError" by simp
    with Cons assms(1) show ?thesis by (simp add: findall_def)
  qed
qed

lemma get_names_no_occurrence:
  assumes "literal pat" and "p \<in> set paths" and "\<not> contains_ci pat (name p)"
  shows "get_names_from_paths paths pat = Inl IndexError"
proof -
  from assms(3) have "first_occurrence pat (name p) = None"
    by (cases "first_occurrence pat (name p)") (simp_all add: contains_ci_def)
  then have "scan (map (\<lambda>c. Once (Lit c)) pat) False (name p) = []" by (rule scan_literal_None)
  from get_names_no_match[OF compile_literal[OF assms(1)] assms(2) this] show ?thesis .
qed

subsection \<open>The loop of the Build Runner\<close>

lemma compile_files_all_launch:
  assumes "\<forall>file \<in> set files. \<exists>rc. run (butlast file) (COMPILE_COMMAND @ [name file]) = Exited rc"
  shows "compile_files run files st =
           (Inr (), st\<lparr>attempts := attempts st @ map build_of files\<rparr>)"
  using assms
proof (induction files arbitrary: st)
  case Nil
  then show ?case by simp
next
  case (Cons f fs)
  from Cons.prems obtain rc where rc: "run (butlast f) (COMPILE_COMMAND @ [name f]) = Exited rc"
    by auto
  from Cons.prems have rest: "\<forall>file \<in> set fs. \<exists>rc. run (butlast file) (COMPILE_COMMAND @ [name file]) = Exited rc"
    by simp
  show ?case
    using rc Cons.IH[OF rest] by (simp add: Let_def build_of_def)
qed

lemma glob_compile_FILE_EXTENSION:
  "glob_compile FILE_EXTENSION = Some [GStar, GLit CHR ''.'', GLit CHR ''g'', GLit CHR ''o'']"
  by code_simp

lemma rglob_FILE_EXTENSION: "rglob fs path FILE_EXTENSION = Inr (matched_files fs path)"
  by (simp add: matched_files_def rglob_def glob_compile_FILE_EXTENSION split: sum.splits node.splits)

lemma compile_code_files_all_launch:
  assumes "\<forall>file \<in> set (matched_files fs path).
             \<exists>rc. run (butlast file) (COMPILE_COMMAND @ [name file]) = Exited rc"
  shows "compile_code_files run fs path st =
           (Inr (), st\<lparr>attempts := attempts st @ map build_of (matched_files fs path)\<rparr>)"
  using compile_files_all_launch[OF assms]
  by (simp add: compile_code_files_def rglob_FILE_EXTENSION)

lemma matched_files_harvest_fs:
  "matched_files harvest_fs [''harvest''] =
     [[''harvest'', ''a.go''], [''harvest'', ''One'', ''b.go''], [''harvest'', ''One'', ''c.go'']]"
  by code_simp

subsection \<open>Updates of the file system\<close>

lemma put_put: "put (put fs p v) p w = put fs p w"
proof (induction fs p v rule: put.induct)
  case (1 n v)
  then show ?case by simp
next
  case (2 c x xs v)
  then show ?case by simp
next
  case (3 es x xs v)
  show ?case
  proof (cases "xs = []")
    case True
    then show ?thesis by simp
  next
    case False
    show ?thesis
    proof (cases "map_of es x")
      case None
      with False show ?thesis by simp
    next
      case (Some m)
      with False "3.IH"[OF False Some] show ?thesis
        by (simp add: AList.update_conv')
    qed
  qed
qed

lemma lstat_put_same:
  "lstat fs (butlast p) = Inr (Dir es) \<Longrightarrow> p \<noteq> [] \<Longrightarrow> lstat (put fs p v) p = Inr v"
proof (induction fs p v arbitrary: es rule: put.induct)
  case (1 n v)
  then show ?case by simp
next
  case (2 c x xs v)
  then show ?case by (cases xs) auto
next
  case (3 es0 x xs v)
  show ?case
  proof (cases "xs = []")
    case True
    then show ?thesis by (simp add: AList.update_conv')
  next
    case False
    with "3.prems" obtain m where m: "map_of es0 x = Some m" "lstat m (butlast xs) = Inr (Dir es)"
      by (auto split: option.splits)
    from "3.IH"[OF False m(1) m(2) False] False m show ?thesis
      by (simp add: AList.update_conv')
  qed
qed

lemma metadata_content:
  assumes "make_json_metadata_file fs path dirs = Inr fs'"
  shows "\<exists>names n.
           lstat fs' (path @ [''metadata.json'']) =
             Inr (File (json_dumps [(''game_names'', JList names), (''number_of_games'', JInt n)]))
           \<and> names = dirs \<and> n = length names"
proof -
  let ?p = "path @ [''metadata.json'']"
  let ?c = "File (json_dumps [(''game_names'', JList dirs), (''number_of_games'', JInt (length dirs))])"
  from assms obtain opened where o: "open_w fs ?p = Inr opened" and f: "fs' = put opened ?p ?c"
    by (auto simp: make_json_metadata_file_def Let_def split: sum.splits)
  from o obtain es where d: "lstat fs path = Inr (Dir es)" and f1: "opened = put fs ?p (File [])"
    by (auto simp: open_w_def split: sum.splits node.splits option.splits)
  from f f1 have "fs' = put fs ?p ?c" by (simp add: put_put)
  moreover from d have "lstat (put fs ?p ?c) ?p = Inr ?c"
    by (intro lstat_put_same[where es = es]) simp_all
  ultimately show ?thesis by simp
qed

lemma make_json_metadata_file_succeeds:
  assumes "lstat fs path = Inr (Dir es)" and "\<forall>sub. map_of es ''metadata.json'' \<noteq> Some (Dir sub)"
  shows "\<exists>fs'. make_json_metadata_file fs path dirs = Inr fs'"
  using assms
  by (auto simp: make_json_metadata_file_def open_w_def Let_def split: option.splits node.splits)

lemma metadata_example:
  "make_json_metadata_file stale_fs [''harvest''] [''One'', ''MyTwo''] = Inr stale_fs_written
   \<and> json_dumps [(''game_names'', JList [''One'', ''MyTwo'']), (''number_of_games'', JInt 2)]
       = ''{'' @ [CHR 0x22] @ ''game_names'' @ [CHR 0x22] @ '': ['' @ [CHR 0x22] @ ''One'' @ [CHR 0x22]
         @ '', '' @ [CHR 0x22] @ ''MyTwo'' @ [CHR 0x22] @ ''], '' @ [CHR 0x22] @ ''number_of_games''
         @ [CHR 0x22] @ '': 2}''"
  by code_simp

subsection \<open>The metadata text read back\<close>

lemma hex_val_hex_digit: "hex_val (hex_digit k) = Some (k mod 16)"
proof -
  have "\<forall>j \<in> set [0..<16]. hex_val (hex_digit j) = Some j" by code_simp
  moreover have "k mod 16 \<in> set [0..<16]" by simp
  ultimately have "hex_val (hex_digit (k mod 16)) = Some (k mod 16)" by blast
  then show ?thesis by (simp add: hex_digit_def)
qed

lemma unicode_escape_hex:
  "n < 256 \<Longrightarrow>
     unicode_escape [CHR ''0'', CHR ''0'', hex_digit (n div 16), hex_digit n] = Some (char_of n)"
proof -
  assume n: "n < 256"
  have z: "hex_val CHR ''0'' = Some 0" by code_simp
  from n have "n div 16 mod 16 = n div 16" by simp
  moreover have "16 * (n div 16) + n mod 16 = n" by simp
  ultimately show ?thesis by (simp add: unicode_escape_def hex_val_hex_digit z)
qed

lemma read_string_body_quote: "read_string_body (CHR 0x22 # t) = Some ([], t)"
  by (cases t) simp_all

lemma read_string_body_escape:
  "unescape e = Some d \<Longrightarrow> e \<noteq> CHR ''u'' \<Longrightarrow>
     read_string_body (CHR 0x5C # e # u) = map_option (\<lambda>(s, r). (d # s, r)) (read_string_body u)"
  by simp

lemma read_string_body_plain:
  "c \<noteq> CHR 0x22 \<Longrightarrow> c \<noteq> CHR 0x5C \<Longrightarrow> 32 \<le> (of_char c :: nat) \<Longrightarrow>
     read_string_body (c # u) = map_option (\<lambda>(s, r). (c # s, r)) (read_string_body u)"
  by (cases u) auto

lemma read_string_body_unicode:
  "read_string_body (CHR 0x5C # CHR ''u'' # CHR ''0'' # CHR ''0'' # hex_digit (of_char c div 16)
       # hex_digit (of_char c) # u)
     = map_option (\<lambda>(s, r). (c # s, r)) (read_string_body u)"
proof -
  have "(of_char c :: nat) < 256" by simp
  from unicode_escape_hex[OF this] show ?thesis by simp
qed

lemma read_string_body_json_char:
  "read_string_body (json_char c @ u) = map_option (\<lambda>(s, r). (c # s, r)) (read_string_body u)"
proof -
  have e: "unescape (CHR 0x22) = Some (CHR 0x22)" "unescape (CHR 0x5C) = Some (CHR 0x5C)"
    "unescape (CHR ''n'') = Some (CHR 0x0A)" "unescape (CHR ''r'') = Some (CHR 0x0D)"
    "unescape (CHR ''t'') = Some (CHR 0x09)" "unescape (CHR ''b'') = Some (CHR 0x08)"
    "unescape (CHR ''f'') = Some (CHR 0x0C)"
    by (simp_all add: unescape_def)
  show ?thesis
    unfolding json_char_def Let_def
    by (simp add: read_string_body_escape e read_string_body_plain read_string_body_unicode
          del: read_string_body.simps)
qed

lemma read_string_body_json_string:
  "read_string_body (concat (map json_char s) @ CHR 0x22 # t) = Some (s, t)"
  by (induction s) (simp_all add: read_string_body_quote read_string_body_json_char
        del: read_string_body.simps)

lemma tokens_json_string: "tokens (json_string s @ t) = map_option (Cons (Str s)) (tokens t)"
  by (simp add: json_string_def read_string_body_json_string is_ws_def)

lemma digit_char:
  "j < 10 \<Longrightarrow> (of_char (''0123456789'' ! j) :: nat) = 48 + j"
proof -
  assume "j < 10"
  then have "j \<in> set [0..<10]" by simp
  moreover have "\<forall>j \<in> set [0..<10]. (of_char (''0123456789'' ! j) :: nat) = 48 + j" by code_simp
  ultimately show ?thesis by blast
qed

lemma digits_digit: "c \<in> set (digits n) \<Longrightarrow> is_digit c"
proof (induction n arbitrary: c rule: digits.induct)
  case (1 n)
  show ?case
  proof (cases "n < 10")
    case True
    with "1.prems" digit_char[OF True] show ?thesis
      by (simp add: digits.simps[of n] is_digit_def)
  next
    case False
    have "n mod 10 < 10" by simp
    from digit_char[OF this] "1.prems" False "1.IH"[OF False] show ?thesis
      by (auto simp: digits.simps[of n] is_digit_def)
  qed
qed

lemma digits_nonempty: "digits n \<noteq> []"
  by (subst digits.simps) simp

lemma nat_of_digits_snoc:
  "nat_of_digits (ds @ [d]) = 10 * nat_of_digits ds + (of_char d - 48)"
  by (simp add: nat_of_digits_def)

lemma nat_of_digits_digits: "nat_of_digits (digits n) = n"
proof (induction n rule: digits.induct)
  case (1 n)
  show ?case
  proof (cases "n < 10")
    case True
    with digit_char[OF True] show ?thesis
      by (simp add: digits.simps[of n] nat_of_digits_def)
  next
    case False
    have "n mod 10 < 10" by simp
    from digit_char[OF this] False "1.IH"[OF False] show ?thesis
      by (simp add: digits.simps[of n] nat_of_digits_snoc)
  qed
qed

lemma digits_hd: "0 < n \<Longrightarrow> hd (digits n) \<noteq> CHR ''0''"
proof (induction n rule: digits.induct)
  case (1 n)
  show ?case
  proof (cases "n < 10")
    case True
    from digit_char[OF True] "1.prems" have "(of_char (''0123456789'' ! n) :: nat) \<noteq> 48" by simp
    then have "''0123456789'' ! n \<noteq> CHR ''0''" by auto
    with True show ?thesis by (simp add: digits.simps[of n])
  next
    case False
    then have "0 < n div 10" by simp
    from "1.IH"[OF False this] False digits_nonempty[of "n div 10"] show ?thesis
      by (simp add: digits.simps[of n])
  qed
qed

lemma digits_zero: "digits 0 = ''0''"
  by code_simp

lemma is_digit_not_structural:
  "is_digit c \<Longrightarrow> \<not> is_ws c \<and> c \<noteq> CHR ''{'' \<and> c \<noteq> CHR ''}'' \<and> c \<noteq> CHR ''['' \<and> c \<noteq> CHR '']''
     \<and> c \<noteq> CHR '','' \<and> c \<noteq> CHR '':'' \<and> c \<noteq> CHR 0x22"
  by (auto simp: is_digit_def is_ws_def)

lemma tokens_digits:
  assumes "t = [] \<or> \<not> is_digit (hd t)"
  shows "tokens (digits n @ t) = map_option (Cons (Num n)) (tokens t)"
proof (cases "n = 0")
  case True
  then show ?thesis by (simp add: digits_zero is_ws_def)
next
  case False
  obtain c cs where d: "digits n = c # cs" using digits_nonempty[of n] by (cases "digits n") auto
  from digits_digit[of _ n] d have c: "is_digit c" and cs: "\<And>x. x \<in> set cs \<Longrightarrow> is_digit x"
    by auto
  from digits_hd[of n] False d have z: "c \<noteq> CHR ''0''" by simp
  from assms have tw: "takeWhile is_digit t = []" and dw: "dropWhile is_digit t = t"
    by (cases t; simp)+
  from cs tw have 1: "takeWhile is_digit (cs @ t) = cs" by (simp add: takeWhile_append2)
  from cs dw have 2: "dropWhile is_digit (cs @ t) = t" by (simp add: dropWhile_append2)
  from nat_of_digits_digits[of n] d have 3: "nat_of_digits (c # cs) = n" by simp
  from is_digit_not_structural[OF c] c z 1 2 3 d show ?thesis by simp
qed

lemma join_Cons: "join sep (x # xs) = x @ concat (map (\<lambda>s. sep @ s) xs)"
  by (induction xs arbitrary: x) simp_all

lemma parse_more_elements:
  assumes "tokens t = Some ts"
  shows "\<exists>ts'. tokens (concat (map (\<lambda>s. '', '' @ s) (map json_string xs)) @ CHR '']'' # t) = Some ts'
               \<and> parse_more ts' = Some (xs, ts)"
proof (induction xs)
  case Nil
  from assms show ?case by (simp add: is_ws_def)
next
  case (Cons x xs)
  then obtain ts' where
    1: "tokens (concat (map (\<lambda>s. '', '' @ s) (map json_string xs)) @ CHR '']'' # t) = Some ts'"
    and 2: "parse_more ts' = Some (xs, ts)" by blast
  from 1 have "tokens (concat (map (\<lambda>s. '', '' @ s) (map json_string (x # xs))) @ CHR '']'' # t)
      = Some (Comma # Str x # ts')"
    using tokens_json_string[of x "concat (map (\<lambda>s. '', '' @ s) (map json_string xs)) @ CHR '']'' # t"]
    by (simp add: is_ws_def)
  with 2 show ?case by simp
qed

lemma parse_value_json_value:
  assumes "tokens t = Some ts" and "t = [] \<or> \<not> is_digit (hd t)"
  shows "\<exists>ts'. tokens (json_value v @ t) = Some ts' \<and> parse_value ts' = Some (v, ts)"
proof (cases v)
  case (JInt n)
  with assms tokens_digits[OF assms(2), of n] show ?thesis by simp
next
  case (JList xs)
  show ?thesis
  proof (cases xs)
    case Nil
    with JList assms(1) show ?thesis by (simp add: is_ws_def)
  next
    case (Cons y ys)
    from parse_more_elements[OF assms(1), of ys] obtain ts' where
      1: "tokens (concat (map (\<lambda>s. '', '' @ s) (map json_string ys)) @ CHR '']'' # t) = Some ts'"
      and 2: "parse_more ts' = Some (ys, ts)" by blast
    from 1 have "tokens (json_value v @ t) = Some (LBracket # Str y # ts')"
      using tokens_json_string[of y "concat (map (\<lambda>s. '', '' @ s) (map json_string ys)) @ CHR '']'' # t"]
      by (simp add: JList Cons join_Cons is_ws_def)
    with 2 JList Cons show ?thesis by simp
  qed
qed

lemma tokens_member:
  assumes "tokens t = Some ts" and "t = [] \<or> \<not> is_digit (hd t)"
  shows "\<exists>tv. tokens (member_text (k, v) @ t) = Some (Str k # Colon # tv)
               \<and> parse_value tv = Some (v, ts)"
proof -
  from parse_value_json_value[OF assms, of v] obtain tv where
    1: "tokens (json_value v @ t) = Some tv" and 2: "parse_value tv = Some (v, ts)" by blast
  from 1 have "tokens (member_text (k, v) @ t) = Some (Str k # Colon # tv)"
    using tokens_json_string[of k "'': '' @ json_value v @ t"]
    by (simp add: member_text_def is_ws_def)
  with 2 show ?thesis by blast
qed

lemma parse_members_text:
  "\<exists>ts'. tokens (concat (map (\<lambda>s. '', '' @ s) (map member_text ms)) @ ''}'') = Some ts'
               \<and> parse_members ts' = Some (ms, [])"
proof (induction ms)
  case Nil
  show ?case by (simp add: is_ws_def parse_members.simps)
next
  case (Cons m ms)
  let ?rest = "concat (map (\<lambda>s. '', '' @ s) (map member_text ms)) @ ''}''"
  from Cons obtain ts' where 1: "tokens ?rest = Some ts'"
    and 2: "parse_members ts' = Some (ms, [])" by blast
  have nd: "?rest = [] \<or> \<not> is_digit (hd ?rest)"
    by (cases ms) (simp_all add: is_digit_def)
  obtain k v where m: "m = (k, v)" by (cases m)
  from tokens_member[OF 1 nd, of k v] obtain tv where
    3: "tokens (member_text (k, v) @ ?rest) = Some (Str k # Colon # tv)"
    and 4: "parse_value tv = Some (v, ts')" by blast
  from 3 have "tokens (concat (map (\<lambda>s. '', '' @ s) (map member_text (m # ms))) @ ''}'')
      = Some (Comma # Str k # Colon # tv)"
    by (simp add: m is_ws_def)
  moreover from 2 4 have "parse_members (Comma # Str k # Colon # tv) = Some (m # ms, [])"
    by (simp add: m parse_members.simps[of "Comma # Str k # Colon # tv"])
  ultimately show ?case by blast
qed

lemma parse_object_json_dumps:
  "\<exists>ts. tokens (json_dumps obj) = Some ts \<and> parse_object ts = Some (obj, [])"
proof (cases obj)
  case Nil
  then show ?thesis by (simp add: json_dumps_def parse_object_def is_ws_def)
next
  case (Cons m ms)
  let ?rest = "concat (map (\<lambda>s. '', '' @ s) (map member_text ms)) @ ''}''"
  from parse_members_text[of ms] obtain ts' where 1: "tokens ?rest = Some ts'"
    and 2: "parse_members ts' = Some (ms, [])" by blast
  have nd: "?rest = [] \<or> \<not> is_digit (hd ?rest)"
    by (cases ms) (simp_all add: is_digit_def)
  obtain k v where m: "m = (k, v)" by (cases m)
  from tokens_member[OF 1 nd, of k v] obtain tv where
    3: "tokens (member_text (k, v) @ ?rest) = Some (Str k # Colon # tv)"
    and 4: "parse_value tv = Some (v, ts')" by blast
  have "json_dumps obj = CHR ''{'' # member_text m @ ?rest"
    by (simp add: json_dumps_def Cons join_Cons member_text_def)
  with 3 have "tokens (json_dumps obj) = Some (LBrace # Str k # Colon # tv)"
    by (simp add: m is_ws_def)
  moreover from 2 4 have "parse_object (LBrace # Str k # Colon # tv) = Some (obj, [])"
    by (simp add: m Cons parse_object_def)
  ultimately show ?thesis by blast
qed

lemma update_fresh: "k \<notin> fst ` set al \<Longrightarrow> AList.update k v al = al @ [(k, v)]"
  by (induction al) auto

lemma fold_update_distinct:
  "distinct (map fst (acc @ ms)) \<Longrightarrow> fold (\<lambda>(k, v). AList.update k v) ms acc = acc @ ms"
proof (induction ms arbitrary: acc)
  case Nil
  then show ?case by simp
next
  case (Cons m ms)
  obtain k v where m: "m = (k, v)" by (cases m)
  from Cons.prems m have "k \<notin> fst ` set acc" by auto
  then have u: "AList.update k v acc = acc @ [(k, v)]" by (rule update_fresh)
  from Cons.prems m have "distinct (map fst ((acc @ [(k, v)]) @ ms))" by simp
  from Cons.IH[OF this] u m show ?case by simp
qed

lemma json_loads_json_dumps:
  "distinct (map fst obj) \<Longrightarrow> json_loads (json_dumps obj) = Some obj"
proof -
  assume d: "distinct (map fst obj)"
  from parse_object_json_dumps[of obj] obtain ts where
    "tokens (json_dumps obj) = Some ts" "parse_object ts = Some (obj, [])" by blast
  moreover from d fold_update_distinct[of "[]" obj]
  have "fold (\<lambda>(k, v). AList.update k v) obj [] = obj" by simp
  ultimately show ?thesis by (simp add: json_loads_def)
qed


lemma json_loads_rejects:
  "json_loads [] = None \<and> json_loads ''{'' = None \<and> json_loads ''[]'' = None
   \<and> json_loads ''{} x'' = None \<and> json_loads '' { } '' = Some []"
  by code_simp

subsection \<open>Path resolution\<close>



lemma lstat_append:
  "lstat fs (p @ q) = (case lstat fs p of Inl e \<Rightarrow> Inl e | Inr n \<Rightarrow> lstat n q)"
  by (induction fs p rule: lstat.induct) (auto split: option.splits)

lemma lstat_butlast_dir:
  assumes "lstat fs p = Inr n" and "p \<noteq> []"
  shows "\<exists>es. lstat fs (butlast p) = Inr (Dir es)"
proof -
  from assms(2) have p: "p = butlast p @ [last p]" by simp
  from assms(1) have "lstat fs (butlast p @ [last p]) = Inr n" using p by simp
  then obtain m where m: "lstat fs (butlast p) = Inr m" "lstat m [last p] = Inr n"
    by (auto simp: lstat_append split: sum.splits)
  from m(2) show ?thesis using m(1) by (cases m) auto
qed










subsection \<open>The merge copy\<close>

lemma copy_entries_frame_top:
  "n \<notin> fst ` set s \<Longrightarrow> map_of (snd (copy_entries s d)) n = map_of d n"
proof (induction s d rule: copy_entries.induct)
  case (1 d)
  then show ?case by simp
next
  case (2 m c es d)
  then show ?case
    by (auto simp: AList.update_conv' split: sum.splits)
next
  case (3 m ses es d)
  from "3.prems" have nm: "n \<noteq> m" and ne: "n \<notin> fst ` set es" by auto
  show ?case
  proof (cases "map_of d m")
    case None
    obtain e1 des' where r1: "copy_entries ses [] = (e1, des')" by (cases "copy_entries ses []")
    obtain e2 d' where r2: "copy_entries es (AList.update m (Dir des') d) = (e2, d')"
      by (cases "copy_entries es (AList.update m (Dir des') d)")
    from "3.IH"(2)[OF None refl r1[symmetric] ne] r2 nm
    have "map_of d' n = map_of d n" by (simp add: AList.update_conv')
    with None r1 r2 show ?thesis by simp
  next
    case (Some x)
    show ?thesis
    proof (cases x)
      case (File c)
      with Some "3.IH"(3)[OF Some File ne] show ?thesis by simp
    next
      case (Dir des)
      obtain e1 des' where r1: "copy_entries ses des = (e1, des')" by (cases "copy_entries ses des")
      obtain e2 d' where r2: "copy_entries es (AList.update m (Dir des') d) = (e2, d')"
        by (cases "copy_entries es (AList.update m (Dir des') d)")
      from "3.IH"(5)[OF Some Dir refl r1[symmetric] ne] r2 nm
      have "map_of d' n = map_of d n" by (simp add: AList.update_conv')
      with Some Dir r1 r2 show ?thesis by simp
    qed
  qed
qed

lemma copy2_idem: "copy2 c n x = Inr v \<Longrightarrow> copy2 c n (Some v) = Inr v"
  by (auto simp: copy2_def AList.update_conv' split: option.splits node.splits)

lemma copy_entries_idem:
  "wf_entries s \<Longrightarrow> copy_entries s d = (False, d1) \<Longrightarrow> copy_entries s d1 = (False, d1)"
proof (induction s d arbitrary: d1 rule: copy_entries.induct)
  case (1 d)
  then show ?case by simp
next
  case (2 n c es d)
  from "2.prems"(1) have ne: "n \<notin> fst ` set es" and wf: "wf_entries es" by auto
  from "2.prems"(2) obtain v where v: "copy2 c n (map_of d n) = Inr v"
    and r: "copy_entries es (AList.update n v d) = (False, d1)"
    by (auto split: sum.splits)
  from "2.IH"(2)[OF v wf r] have again: "copy_entries es d1 = (False, d1)" .
  from copy_entries_frame_top[OF ne, of "AList.update n v d"] r
  have at: "map_of d1 n = Some v" by (simp add: AList.update_conv')
  from copy2_idem[OF v] at have "copy2 c n (map_of d1 n) = Inr v" by simp
  moreover from at have "AList.update n v d1 = d1" by (rule AList.update_triv)
  ultimately show ?case using again by simp
next
  case (3 n ses es d)
  from "3.prems"(1) have ne: "n \<notin> fst ` set es" and wfs: "wf_entries ses" and wf: "wf_entries es"
    by auto
  show ?case
  proof (cases "map_of d n")
    case None
    obtain e1 des' where r1: "copy_entries ses [] = (e1, des')" by (cases "copy_entries ses []")
    obtain e2 d' where r2: "copy_entries es (AList.update n (Dir des') d) = (e2, d')"
      by (cases "copy_entries es (AList.update n (Dir des') d)")
    from "3.prems"(2) None r1 r2 have e: "e1 = False" "e2 = False" "d' = d1" by auto
    from "3.IH"(1)[OF None wfs] r1 e have s1: "copy_entries ses des' = (False, des')" by simp
    from "3.IH"(2)[OF None refl r1[symmetric] wf] r2 e
    have s2: "copy_entries es d1 = (False, d1)" by simp
    from copy_entries_frame_top[OF ne, of "AList.update n (Dir des') d"] r2 e
    have at: "map_of d1 n = Some (Dir des')" by (simp add: AList.update_conv')
    then have "AList.update n (Dir des') d1 = d1" by (rule AList.update_triv)
    with at s1 s2 show ?thesis by simp
  next
    case (Some x)
    show ?thesis
    proof (cases x)
      case (File c)
      with Some "3.prems"(2) show ?thesis by simp
    next
      case (Dir des)
      obtain e1 des' where r1: "copy_entries ses des = (e1, des')" by (cases "copy_entries ses des")
      obtain e2 d' where r2: "copy_entries es (AList.update n (Dir des') d) = (e2, d')"
        by (cases "copy_entries es (AList.update n (Dir des') d)")
      from "3.prems"(2) Some Dir r1 r2 have e: "e1 = False" "e2 = False" "d' = d1" by auto
      from "3.IH"(4)[OF Some Dir wfs] r1 e have s1: "copy_entries ses des' = (False, des')" by simp
      from "3.IH"(5)[OF Some Dir refl r1[symmetric] wf] r2 e
      have s2: "copy_entries es d1 = (False, d1)" by simp
      from copy_entries_frame_top[OF ne, of "AList.update n (Dir des') d"] r2 e
      have at: "map_of d1 n = Some (Dir des')" by (simp add: AList.update_conv')
      then have "AList.update n (Dir des') d1 = d1" by (rule AList.update_triv)
      with at s1 s2 show ?thesis by simp
    qed
  qed
qed

lemma written_into_Cons_other:
  "y \<noteq> n \<Longrightarrow> written_into ((n, v) # es) (y # ys) = written_into es (y # ys)"
  by (cases ys) (auto simp: written_into_def)

lemma written_into_Cons_Dir:
  "written_into ((n, Dir ses) # es) (n # ys) = written_into ses ys"
proof (cases ys)
  case Nil
  then show ?thesis by (simp add: written_into_def)
next
  case (Cons z zs)
  then show ?thesis by (cases zs) (auto simp: written_into_def)
qed

lemma copy_entries_keeps:
  "wf_entries s \<Longrightarrow> lstat (Dir s) q = Inl e \<Longrightarrow> \<not> written_into s q \<Longrightarrow>
     lstat (Dir d) q = Inr x \<Longrightarrow> lstat (Dir (snd (copy_entries s d))) q = Inr x"
proof (induction s d arbitrary: q e x rule: copy_entries.induct)
  case (1 d)
  then show ?case by simp
next
  case (2 n c es d)
  from "2.prems"(1) have ne: "n \<notin> fst ` set es" and wf: "wf_entries es" by auto
  from "2.prems"(2) obtain y ys where q: "q = y # ys" by (cases q) auto
  show ?case
  proof (cases "y = n")
    case False
    with "2.prems"(2) q have rest: "lstat (Dir es) q = Inl e" by simp
    from False "2.prems"(3) q have nw: "\<not> written_into es q"
      by (simp add: written_into_Cons_other)
    show ?thesis
    proof (cases "copy2 c n (map_of d n)")
      case (Inl a)
      with "2.IH"(1)[OF Inl wf rest nw "2.prems"(4)] show ?thesis by simp
    next
      case (Inr v)
      from "2.prems"(4) False q have "lstat (Dir (AList.update n v d)) q = Inr x"
        by (simp add: AList.update_conv')
      from "2.IH"(2)[OF Inr wf rest nw this] Inr show ?thesis by simp
    qed
  next
    case True
    with "2.prems"(2) q obtain z zs where ys: "ys = z # zs" by (cases ys) auto
    from "2.prems"(4) q True ys obtain m where m: "map_of d n = Some m" "lstat m (z # zs) = Inr x"
      by (auto split: option.splits)
    from m(2) obtain es0 where "m = Dir es0" by (cases m) auto
    with m have dn: "map_of d n = Some (Dir es0)" and l0: "lstat (Dir es0) (z # zs) = Inr x"
      by simp_all
    show ?thesis
    proof (cases "copy2 c n (map_of d n)")
      case (Inl a)
      from copy_entries_frame_top[OF ne, of d] dn
      have "map_of (snd (copy_entries es d)) n = Some (Dir es0)" by simp
      with Inl l0 q True ys show ?thesis by simp
    next
      case (Inr v)
      with dn have v: "v = Dir (AList.update n (File c) es0)"
        by (auto simp: copy2_def split: option.splits node.splits)
      from copy_entries_frame_top[OF ne, of "AList.update n v d"]
      have at: "map_of (snd (copy_entries es (AList.update n v d))) n = Some v"
        by (simp add: AList.update_conv')
      have zn: "z \<noteq> n"
      proof
        assume zn: "z = n"
        show False
        proof (cases zs)
          case Nil
          with zn q True ys have "written_into ((n, File c) # es) q"
            by (simp add: written_into_def)
          with "2.prems"(3) show False by simp
        next
          case (Cons w ws)
          from Inr dn have "\<forall>sub. map_of es0 n \<noteq> Some (Dir sub)"
            by (auto simp: copy2_def split: option.splits node.splits)
          moreover from l0 zn Cons obtain m2 where m2: "map_of es0 n = Some m2"
            "lstat m2 (w # ws) = Inr x"
            by (auto split: option.splits)
          moreover from m2(2) obtain sub where "m2 = Dir sub" by (cases m2) auto
          ultimately show False by simp
        qed
      qed
      with l0 have "lstat v (z # zs) = Inr x" unfolding v by (simp add: AList.update_conv')
      with at Inr q True ys show ?thesis by simp
    qed
  qed
next
  case (3 n ses es d)
  from "3.prems"(1) have ne: "n \<notin> fst ` set es" and wfs: "wf_entries ses" and wf: "wf_entries es"
    by auto
  from "3.prems"(2) obtain y ys where q: "q = y # ys" by (cases q) auto
  show ?case
  proof (cases "y = n")
    case False
    with "3.prems"(2) q have rest: "lstat (Dir es) q = Inl e" by simp
    from False "3.prems"(3) q have nw: "\<not> written_into es q"
      by (simp add: written_into_Cons_other)
    have upd: "lstat (Dir (AList.update n v d)) q = Inr x" for v
      using "3.prems"(4) False q by (simp add: AList.update_conv')
    show ?thesis
    proof (cases "map_of d n")
      case None
      obtain e1 des' where r1: "copy_entries ses [] = (e1, des')" by (cases "copy_entries ses []")
      from "3.IH"(2)[OF None refl r1[symmetric] wf rest nw upd] None r1 show ?thesis
        by (auto split: prod.splits)
    next
      case (Some m)
      show ?thesis
      proof (cases m)
        case (File c)
        with Some "3.IH"(3)[OF Some File wf rest nw "3.prems"(4)] show ?thesis by simp
      next
        case (Dir des)
        obtain e1 des' where r1: "copy_entries ses des = (e1, des')" by (cases "copy_entries ses des")
        from "3.IH"(5)[OF Some Dir refl r1[symmetric] wf rest nw upd] Some Dir r1 show ?thesis
          by (auto split: prod.splits)
      qed
    qed
  next
    case True
    with "3.prems"(2) q have sub: "lstat (Dir ses) ys = Inl e" by simp
    from "3.prems"(3) q True have nws: "\<not> written_into ses ys"
      by (simp add: written_into_Cons_Dir)
    from sub have "ys \<noteq> []" by auto
    then obtain z zs where ys: "ys = z # zs" by (cases ys) auto
    from "3.prems"(4) q True obtain m where m: "map_of d n = Some m" "lstat m ys = Inr x"
      by (auto split: option.splits)
    from m(2) ys obtain des where "m = Dir des" by (cases m) auto
    with m have dn: "map_of d n = Some (Dir des)" and l0: "lstat (Dir des) ys = Inr x"
      by simp_all
    obtain e1 des' where r1: "copy_entries ses des = (e1, des')" by (cases "copy_entries ses des")
    obtain e2 d' where r2: "copy_entries es (AList.update n (Dir des') d) = (e2, d')"
      by (cases "copy_entries es (AList.update n (Dir des') d)")
    from copy_entries_frame_top[OF ne, of "AList.update n (Dir des') d"] r2
    have at: "map_of d' n = Some (Dir des')" by (simp add: AList.update_conv')
    from "3.IH"(4)[OF dn refl wfs sub nws l0] r1 have "lstat (Dir des') ys = Inr x" by simp
    with dn r1 r2 at True q show ?thesis by simp
  qed
qed


lemma overlap_simps:
  "overlap [] q" "overlap p []" "overlap (x # p) (y # q) = (x = y \<and> overlap p q)"
  by (auto simp: overlap_def)

lemma makedirs_existing: "lstat fs p = Inr (Dir des) \<Longrightarrow> makedirs fs p = Inr fs"
proof (induction fs p rule: makedirs.induct)
  case (1 n)
  then show ?case by simp
next
  case (2 c x xs)
  then show ?case by simp
next
  case (3 es x xs)
  from "3.prems" obtain m where m: "map_of es x = Some m" "lstat m xs = Inr (Dir des)"
    by (auto split: option.splits)
  from "3.IH" m have "makedirs m xs = Inr m" by simp
  with m show ?case by (simp add: AList.update_triv)
qed

lemma makedirs_frame:
  "\<not> overlap src dst \<Longrightarrow> makedirs fs dst = Inr fs' \<Longrightarrow> lstat fs' src = lstat fs src"
proof (induction fs dst arbitrary: fs' src rule: makedirs.induct)
  case (1 n)
  then show ?case by (simp add: overlap_simps)
next
  case (2 c x xs)
  then show ?case by simp
next
  case (3 es x xs)
  from "3.prems"(2) obtain m' where
    m: "makedirs (case map_of es x of None \<Rightarrow> Dir [] | Some m \<Rightarrow> m) xs = Inr m'"
    and f: "fs' = Dir (AList.update x m' es)"
    by (auto split: sum.splits)
  from "3.prems"(1) obtain y ys where s: "src = y # ys" by (cases src) (auto simp: overlap_simps)
  show ?case
  proof (cases "y = x")
    case False
    with f s show ?thesis by (simp add: AList.update_conv')
  next
    case True
    with "3.prems"(1) s have no: "\<not> overlap ys xs" by (simp add: overlap_simps)
    then obtain z zs where ys: "ys = z # zs" by (cases ys) (auto simp: overlap_simps)
    from "3.IH"[OF no m]
    have "lstat m' ys = lstat (case map_of es x of None \<Rightarrow> Dir [] | Some m \<Rightarrow> m) ys" .
    with True f s ys show ?thesis by (simp add: AList.update_conv' split: option.splits)
  qed
qed

lemma put_frame: "\<not> overlap src dst \<Longrightarrow> lstat (put fs dst v) src = lstat fs src"
proof (induction fs dst v arbitrary: src rule: put.induct)
  case (1 n v)
  then show ?case by (simp add: overlap_simps)
next
  case (2 c x xs v)
  then show ?case by simp
next
  case (3 es x xs v)
  from "3.prems" obtain y ys where s: "src = y # ys" by (cases src) (auto simp: overlap_simps)
  show ?case
  proof (cases "y = x")
    case False
    with s show ?thesis by (simp add: AList.update_conv' split: option.splits)
  next
    case True
    with "3.prems" s have no: "\<not> overlap ys xs" by (simp add: overlap_simps)
    then have xs: "xs \<noteq> []" by (auto simp: overlap_simps)
    show ?thesis
    proof (cases "map_of es x")
      case None
      with xs show ?thesis by simp
    next
      case (Some m)
      from "3.IH"[OF xs Some no] xs Some True s show ?thesis
        by (simp add: AList.update_conv')
    qed
  qed
qed

lemma copytree_SomeD:
  assumes "copytree fs src dst = Inr fs'"
  shows "\<exists>ses fsm des des'. \<not> overlap src dst \<and> lstat fs src = Inr (Dir ses)
           \<and> makedirs fs dst = Inr fsm \<and> lstat fsm dst = Inr (Dir des)
           \<and> copy_entries ses des = (False, des') \<and> fs' = put fsm dst (Dir des')"
  using assms
  by (auto simp: copytree_def split: if_splits sum.splits node.splits prod.splits bool.splits)

lemma merge_fs_copy: "copy_and_overwrite merge_fs [''src'', ''GameOne''] [''harvest'', ''One''] = Inr merge_fs_copied"
  by code_simp

section \<open>The claims\<close>

subsection \<open>Name Transformer\<close>

text \<open>
  Claim C1, as the code has it. For a pattern without special characters and names that
  all contain it, the Name Transformer returns, for each name, the name without the first
  case-insensitive occurrence of the pattern and without every later copy of that
  occurrence's text in the same case; the characters before the first occurrence and all
  other characters stay as they are.
\<close>

theorem get_names_strips_copies:
  assumes "literal pat" and "\<forall>p \<in> set paths. contains_ci pat (name p)"
  shows "\<exists>names. get_names_from_paths paths pat = Inr names \<and>
           map Some names = map (\<lambda>p. strip_copies pat (name p)) paths"
  using assms(2)
proof (induction paths)
  case Nil
  then show ?case by simp
next
  case (Cons p ps)
  from Cons.prems have "contains_ci pat (name p)" by simp
  then obtain n where n: "strip_copies pat (name p) = Some n"
    by (auto simp: contains_ci_def strip_copies_def)
  from Cons obtain ns where ns: "get_names_from_paths ps pat = Inr ns"
    "map Some ns = map (\<lambda>p. strip_copies pat (name p)) ps" by auto
  show ?case
    using n ns by (simp add: get_names_literal_step[OF assms(1)] del: get_names_from_paths.simps)
qed

theorem get_names_strips_copies_witness:
  "literal ''game'' \<and> contains_ci ''game'' (name [''src'', ''GameOne''])
   \<and> contains_ci ''game'' (name [''src'', ''gamegame''])
   \<and> (\<exists>names.
         get_names_from_paths [[''src'', ''GameOne''], [''src'', ''gamegame'']] ''game'' = Inr names
         \<and> map Some names =
             map (\<lambda>p. strip_copies ''game'' (name p))
               [[''src'', ''GameOne''], [''src'', ''gamegame'']])"
proof -
  have l: "literal ''game''" by code_simp
  have c1: "contains_ci ''game'' (name [''src'', ''GameOne''])" by code_simp
  have c2: "contains_ci ''game'' (name [''src'', ''gamegame''])" by code_simp
  have c: "\<forall>p \<in> set [[''src'', ''GameOne''], [''src'', ''gamegame'']]. contains_ci ''game'' (name p)"
    using c1 c2 by simp
  show ?thesis using l c1 c2 get_names_strips_copies[OF l c] by blast
qed

text \<open>
  Claim C1 as stated fails: in \<^verbatim>\<open>gamegame\<close> the second occurrence is removed as well,
  where removing only the first one would leave \<^verbatim>\<open>game\<close>.
\<close>

theorem first_only_counterexample:
  "get_names_from_paths [[''src'', ''gamegame'']] ''game'' = Inr ['''']
   \<and> strip_first ''game'' (name [''src'', ''gamegame'']) = Some ''game''"
  by code_simp

text \<open>
  Claim C3, as the code has it. For a pattern without special characters: when some name
  in the list does not contain the pattern, the Name Transformer raises \<open>IndexError\<close>,
  the exception of \<^verbatim>\<open>[0]\<close> on the empty result of \<^verbatim>\<open>findall\<close>, which nothing in the
  script catches: it returns no list of names, so it is no no-op and no name passes through
  unmodified. For any pattern of the modelled syntax the same holds when the pattern, read
  as a regular expression, has no match in some name of the list.
\<close>

theorem get_names_raises_IndexError:
  "(literal pat \<and> p \<in> set paths \<and> \<not> contains_ci pat (name p) \<longrightarrow>
      get_names_from_paths paths pat = Inl IndexError)
   \<and> (compile pat = Inr its \<and> q \<in> set paths \<and> scan its False (name q) = [] \<longrightarrow>
      get_names_from_paths paths pat = Inl IndexError)"
  using get_names_no_occurrence get_names_no_match by blast

theorem get_names_raises_IndexError_witness:
  "literal ''game''
   \<and> [''harvest'', ''One''] \<in> set [[''harvest'', ''GameA''], [''harvest'', ''One'']]
   \<and> \<not> contains_ci ''game'' (name [''harvest'', ''One''])
   \<and> get_names_from_paths [[''harvest'', ''GameA''], [''harvest'', ''One'']] ''game'' = Inl IndexError
   \<and> compile ''ga*me'' = Inr [Once (Lit CHR ''g''), Star (Lit CHR ''a''), Once (Lit CHR ''m''), Once (Lit CHR ''e'')]
   \<and> scan [Once (Lit CHR ''g''), Star (Lit CHR ''a''), Once (Lit CHR ''m''), Once (Lit CHR ''e'')] False
        (name [''harvest'', ''One'']) = []
   \<and> get_names_from_paths [[''harvest'', ''Gme2''], [''harvest'', ''One'']] ''ga*me'' = Inl IndexError"
proof -
  have l: "literal ''game''" by code_simp
  have m: "[''harvest'', ''One''] \<in> set [[''harvest'', ''GameA''], [''harvest'', ''One'']]" by simp
  have c: "\<not> contains_ci ''game'' (name [''harvest'', ''One''])" by code_simp
  have k: "compile ''ga*me'' = Inr [Once (Lit CHR ''g''), Star (Lit CHR ''a''), Once (Lit CHR ''m''), Once (Lit CHR ''e'')]"
    by code_simp
  have m2: "[''harvest'', ''One''] \<in> set [[''harvest'', ''Gme2''], [''harvest'', ''One'']]" by simp
  have s: "scan [Once (Lit CHR ''g''), Star (Lit CHR ''a''), Once (Lit CHR ''m''), Once (Lit CHR ''e'')] False
        (name [''harvest'', ''One'']) = []" by code_simp
  from get_names_raises_IndexError[THEN conjunct1, rule_format, of "''game''" "[''harvest'', ''One'']" "[[''harvest'', ''GameA''], [''harvest'', ''One'']]"]
    l m c
  have a: "get_names_from_paths [[''harvest'', ''GameA''], [''harvest'', ''One'']] ''game'' = Inl IndexError"
    by blast
  from get_names_raises_IndexError[THEN conjunct2, rule_format, of "''ga*me''" _ "[''harvest'', ''One'']" "[[''harvest'', ''Gme2''], [''harvest'', ''One'']]"]
    k m2 s
  have b: "get_names_from_paths [[''harvest'', ''Gme2''], [''harvest'', ''One'']] ''ga*me'' = Inl IndexError"
    by blast
  from l m c a k s b show ?thesis by blast
qed

text \<open>
  Claim C3 as stated fails twice. The name \<^verbatim>\<open>One\<close>, which the transformer made from
  \<^verbatim>\<open>GameOne\<close>, does not contain the pattern, and transforming it again is neither a
  no-op nor a failure the script defines, but the \<open>IndexError\<close> of an index that
  nothing guards. And a pattern that matches the empty text has a match in every name: the
  name \<^verbatim>\<open>GameOne\<close> does not contain \<^verbatim>\<open>x*\<close>, and with that pattern it passes
  through unmodified.
\<close>

theorem unguarded_index_counterexample:
  "get_names_from_paths [[''src'', ''GameOne'']] ''game'' = Inr [''One'']
   \<and> \<not> contains_ci ''game'' ''One''
   \<and> get_names_from_paths [[''harvest'', ''One'']] ''game'' = Inl IndexError
   \<and> get_names_from_paths [[''harvest'', ''One'']] ''game'' \<noteq> Inr [''One'']
   \<and> \<not> contains_ci ''x*'' ''GameOne''
   \<and> get_names_from_paths [[''src'', ''GameOne'']] ''x*'' = Inr [''GameOne'']"
  by code_simp


text \<open>
  Claim C10. The pattern is compiled as a regular expression: every text the Name
  Transformer removes is a match of the compiled pattern somewhere in the name. With a dot
  or a star in the pattern the result differs from case-insensitive substring search:
  \<^verbatim>\<open>g.me\<close> and \<^verbatim>\<open>ga*me\<close> find text in names that do not contain them, and
  \<^verbatim>\<open>a*\<close> removes \<^verbatim>\<open>a\<close> from \<^verbatim>\<open>a*b\<close>, not \<^verbatim>\<open>a*\<close>.
\<close>

theorem pattern_is_regex:
  "(compile pat = Inr its \<longrightarrow> get_names_from_paths paths pat = Inr names \<longrightarrow>
      list_all2 (\<lambda>p n. \<exists>k m. regex_match_at its (name p) k m \<and> n = replace (name p) m [])
        paths names)
   \<and> get_names_from_paths [[''gXme1'']] ''g.me'' = Inr [''1'']
   \<and> strip_first ''g.me'' ''gXme1'' = None
   \<and> get_names_from_paths [[''gme2'']] ''ga*me'' = Inr [''2'']
   \<and> strip_first ''ga*me'' ''gme2'' = None
   \<and> get_names_from_paths [[''a*b'']] ''a*'' = Inr [''*b'']
   \<and> strip_first ''a*'' ''a*b'' = Some ''b''"
proof -
  have "get_names_from_paths [[''gXme1'']] ''g.me'' = Inr [''1'']" by code_simp
  moreover have "strip_first ''g.me'' ''gXme1'' = None" by code_simp
  moreover have "get_names_from_paths [[''gme2'']] ''ga*me'' = Inr [''2'']" by code_simp
  moreover have "strip_first ''ga*me'' ''gme2'' = None" by code_simp
  moreover have "get_names_from_paths [[''a*b'']] ''a*'' = Inr [''*b'']" by code_simp
  moreover have "strip_first ''a*'' ''a*b'' = Some ''b''" by code_simp
  ultimately show ?thesis using get_names_regex by blast
qed

theorem pattern_is_regex_witness:
  "compile ''g.me'' = Inr [Once (Lit CHR ''g''), Once AnyChar, Once (Lit CHR ''m''), Once (Lit CHR ''e'')]
   \<and> get_names_from_paths [[''src'', ''gXme1'']] ''g.me'' = Inr [''1'']
   \<and> list_all2 (\<lambda>p n. \<exists>k m. regex_match_at [Once (Lit CHR ''g''), Once AnyChar, Once (Lit CHR ''m''), Once (Lit CHR ''e'')] (name p) k m \<and> n = replace (name p) m [])
        [[''src'', ''gXme1'']] [''1'']"
proof -
  have c: "compile ''g.me'' = Inr [Once (Lit CHR ''g''), Once AnyChar, Once (Lit CHR ''m''), Once (Lit CHR ''e'')]"
    by code_simp
  have g: "get_names_from_paths [[''src'', ''gXme1'']] ''g.me'' = Inr [''1'']" by code_simp
  from pattern_is_regex[THEN conjunct1, rule_format, OF c g] c g show ?thesis by blast
qed

subsection \<open>Path Resolver\<close>

text \<open>
  Claim C5 at a failing input. \<^verbatim>\<open>Path(dir_file).resolve(dir_file)\<close> passes the path
  string as the \<^verbatim>\<open>strict\<close> flag of \<^verbatim>\<open>resolve\<close>; a non-empty string is true, so
  the resolution is strict: in the directory \<^verbatim>\<open>/home/u\<close>, which has no entry
  \<^verbatim>\<open>missing\<close>, resolving \<^verbatim>\<open>missing\<close> raises \<open>FileNotFoundError\<close>.
\<close>

theorem get_absolute_path_missing:
  "lstat home_fs [''home'', ''u'', ''missing''] = Inl FileNotFoundError
   \<and> get_absolute_path home_fs [''home'', ''u''] ''missing'' = Inl FileNotFoundError"
  by code_simp

subsection \<open>Game Directory Finder\<close>

text \<open>
  Claim C2 at a failing input. In the glob class \<^verbatim>\<open>[g|G]\<close> the bar is a member of the
  class, not an alternation, so the pattern also matches the directory name
  \<^verbatim>\<open>g|me\<close>, which does not contain \<^verbatim>\<open>game\<close> in any case. The file
  \<^verbatim>\<open>game.txt\<close> and the directory \<^verbatim>\<open>other\<close> are left out, as the claim says.
\<close>

theorem find_all_game_paths_bar:
  "find_all_game_paths source_fs [''src''] =
     Inr [[''src'', ''GameOne''], [''src'', ''MyGameTwo''], [''src'', ''notagame''],
          [''src'', ''GAME3''], [''src'', ''g|me'']]
   \<and> \<not> contains_ci ''game'' (name [''src'', ''g|me''])"
  by code_simp

subsection \<open>Build Runner\<close>

text \<open>
  Claim C6, as the code has it. When every build command launches, whatever its exit
  status, the Build Runner returns normally and has attempted every matched file, in
  enumeration order, each in the directory of the file and with the file's bare name as
  the last argument.
\<close>

theorem build_runner_continues:
  assumes "\<forall>file \<in> set (matched_files fs path).
             \<exists>rc. run (butlast file) (COMPILE_COMMAND @ [name file]) = Exited rc"
  shows "fst (compile_code_files run fs path st) = Inr ()
         \<and> attempts (snd (compile_code_files run fs path st)) =
             attempts st @ map build_of (matched_files fs path)"
  by (simp add: compile_code_files_all_launch[OF assms])

theorem build_runner_continues_witness:
  "matched_files harvest_fs [''harvest''] =
     [[''harvest'', ''a.go''], [''harvest'', ''One'', ''b.go''], [''harvest'', ''One'', ''c.go'']]
   \<and> second_fails [''harvest'', ''One''] [''go'', ''build'', ''b.go''] = Exited 2
   \<and> fst (compile_code_files second_fails harvest_fs [''harvest''] \<lparr>cwd = [''home''], attempts = []\<rparr>) = Inr ()
   \<and> attempts (snd (compile_code_files second_fails harvest_fs [''harvest''] \<lparr>cwd = [''home''], attempts = []\<rparr>)) =
       [([''harvest''], [''go'', ''build'', ''a.go'']),
        ([''harvest'', ''One''], [''go'', ''build'', ''b.go'']),
        ([''harvest'', ''One''], [''go'', ''build'', ''c.go''])]"
proof -
  have h: "\<forall>file \<in> set (matched_files harvest_fs [''harvest'']).
             \<exists>rc. second_fails (butlast file) (COMPILE_COMMAND @ [name file]) = Exited rc"
    by (simp add: second_fails_def)
  have m: "map build_of (matched_files harvest_fs [''harvest'']) =
       [([''harvest''], [''go'', ''build'', ''a.go'']),
        ([''harvest'', ''One''], [''go'', ''build'', ''b.go'']),
        ([''harvest'', ''One''], [''go'', ''build'', ''c.go''])]"
    by (simp add: matched_files_harvest_fs build_of_def COMPILE_COMMAND_def name_def)
  have s: "second_fails [''harvest'', ''One''] [''go'', ''build'', ''b.go''] = Exited 2"
    by (simp add: second_fails_def)
  from build_runner_continues[OF h, of "\<lparr>cwd = [''home''], attempts = []\<rparr>"] m s matched_files_harvest_fs
  show ?thesis by simp
qed

text \<open>
  Claim C6 as stated fails for a command that cannot be launched: \<^verbatim>\<open>subprocess.run\<close>
  raises, nothing catches the exception, and with three matched files of which the second
  fails to launch the third is never attempted.
\<close>

theorem launch_failure_counterexample:
  "matched_files harvest_fs [''harvest''] =
     [[''harvest'', ''a.go''], [''harvest'', ''One'', ''b.go''], [''harvest'', ''One'', ''c.go'']]
   \<and> compile_code_files second_missing harvest_fs [''harvest''] \<lparr>cwd = [''home''], attempts = []\<rparr> =
     (Inl FileNotFoundError,
      \<lparr>cwd = [''harvest'', ''One''],
       attempts = [([''harvest''], [''go'', ''build'', ''a.go'']),
                   ([''harvest'', ''One''], [''go'', ''build'', ''b.go''])]\<rparr>)"
  by (simp add: matched_files_harvest_fs compile_code_files_def rglob_FILE_EXTENSION
        second_missing_def COMPILE_COMMAND_def name_def Let_def)

text \<open>
  Claim C7, as the code has it. For every matched file whose command launches, with any
  exit status, the working directory after the iteration is the one recorded before it;
  when every command launches, the Build Runner returns normally with the working
  directory it started in.
\<close>

theorem build_runner_restores_cwd:
  assumes "\<forall>file \<in> set (matched_files fs path).
             \<exists>rc. run (butlast file) (COMPILE_COMMAND @ [name file]) = Exited rc"
  shows "fst (compile_code_files run fs path st) = Inr ()
         \<and> cwd (snd (compile_code_files run fs path st)) = cwd st
         \<and> (\<forall>file rc. run (butlast file) (COMPILE_COMMAND @ [name file]) = Exited rc \<longrightarrow>
               cwd (snd (compile_files run [file] st)) = cwd st)"
  by (simp add: compile_code_files_all_launch[OF assms] Let_def)

theorem build_runner_restores_cwd_witness:
  "second_fails [''harvest'', ''One''] [''go'', ''build'', ''b.go''] = Exited 2
   \<and> fst (compile_code_files second_fails harvest_fs [''harvest''] \<lparr>cwd = [''home''], attempts = []\<rparr>) = Inr ()
   \<and> cwd (snd (compile_code_files second_fails harvest_fs [''harvest''] \<lparr>cwd = [''home''], attempts = []\<rparr>)) = [''home'']
   \<and> cwd (snd (compile_files second_fails [[''harvest'', ''One'', ''b.go'']] \<lparr>cwd = [''home''], attempts = []\<rparr>)) = [''home'']"
proof -
  have h: "\<forall>file \<in> set (matched_files harvest_fs [''harvest'']).
             \<exists>rc. second_fails (butlast file) (COMPILE_COMMAND @ [name file]) = Exited rc"
    by (simp add: second_fails_def)
  have s: "second_fails [''harvest'', ''One''] [''go'', ''build'', ''b.go''] = Exited 2"
    by (simp add: second_fails_def)
  have s': "second_fails (butlast [''harvest'', ''One'', ''b.go''])
              (COMPILE_COMMAND @ [name [''harvest'', ''One'', ''b.go'']]) = Exited 2"
    by (simp add: second_fails_def COMPILE_COMMAND_def name_def)
  note t = build_runner_restores_cwd[OF h, of "\<lparr>cwd = [''home''], attempts = []\<rparr>"]
  from t[THEN conjunct1] t[THEN conjunct2, THEN conjunct1]
    t[THEN conjunct2, THEN conjunct2, rule_format, OF s'] s
  show ?thesis by simp
qed

text \<open>
  Claim C7 as stated fails for a command that cannot be launched: \<^verbatim>\<open>subprocess.run\<close>
  raises between the two calls of \<^verbatim>\<open>os.chdir\<close>, the second call is never reached, and
  the Build Runner ends in the directory of the file, not in the directory it started in.
\<close>

theorem cwd_not_restored_counterexample:
  "second_missing [''harvest'', ''One''] [''go'', ''build'', ''b.go''] = LaunchFailed
   \<and> fst (compile_code_files second_missing harvest_fs [''harvest''] \<lparr>cwd = [''home''], attempts = []\<rparr>)
       = Inl FileNotFoundError
   \<and> cwd (snd (compile_code_files second_missing harvest_fs [''harvest''] \<lparr>cwd = [''home''], attempts = []\<rparr>))
       = [''harvest'', ''One'']"
  by (simp add: matched_files_harvest_fs compile_code_files_def rglob_FILE_EXTENSION
        second_missing_def COMPILE_COMMAND_def name_def Let_def)

subsection \<open>Metadata Writer\<close>

text \<open>
  Claim C8. Whenever the Metadata Writer returns, the file at
  \<^verbatim>\<open>destinationRoot/metadata.json\<close> holds a text that, read back as JSON, is the
  object whose \<^verbatim>\<open>game_names\<close> is the given list of names, in order, and whose
  \<^verbatim>\<open>number_of_games\<close> is the length of that list; the text is the serialisation of
  that object and nothing else, whatever the file held before. The writer returns when
  the destination root is a directory and \<^verbatim>\<open>metadata.json\<close> in it is not a directory.
\<close>

theorem metadata_file_written:
  "(make_json_metadata_file fs path dirs = Inr fs' \<longrightarrow>
      (\<exists>text names n.
         lstat fs' (path @ [''metadata.json'']) = Inr (File text)
         \<and> text = json_dumps [(''game_names'', JList names), (''number_of_games'', JInt n)]
         \<and> json_loads text = Some [(''game_names'', JList names), (''number_of_games'', JInt n)]
         \<and> names = dirs \<and> n = length names))
   \<and> (lstat fs path = Inr (Dir es) \<and> (\<forall>sub. map_of es ''metadata.json'' \<noteq> Some (Dir sub)) \<longrightarrow>
        (\<exists>fs1. make_json_metadata_file fs path dirs = Inr fs1))"
proof (intro conjI impI)
  assume "make_json_metadata_file fs path dirs = Inr fs'"
  from metadata_content[OF this]
  have "lstat fs' (path @ [''metadata.json'']) =
          Inr (File (json_dumps [(''game_names'', JList dirs), (''number_of_games'', JInt (length dirs))]))"
    by simp
  moreover have "json_loads (json_dumps [(''game_names'', JList dirs), (''number_of_games'', JInt (length dirs))])
      = Some [(''game_names'', JList dirs), (''number_of_games'', JInt (length dirs))]"
    by (rule json_loads_json_dumps) simp
  ultimately show "\<exists>text names n.
         lstat fs' (path @ [''metadata.json'']) = Inr (File text)
         \<and> text = json_dumps [(''game_names'', JList names), (''number_of_games'', JInt n)]
         \<and> json_loads text = Some [(''game_names'', JList names), (''number_of_games'', JInt n)]
         \<and> names = dirs \<and> n = length names"
    by blast
next
  assume "lstat fs path = Inr (Dir es) \<and> (\<forall>sub. map_of es ''metadata.json'' \<noteq> Some (Dir sub))"
  then show "\<exists>fs1. make_json_metadata_file fs path dirs = Inr fs1"
    using make_json_metadata_file_succeeds[of fs path es dirs] by blast
qed

theorem metadata_file_written_witness:
  "make_json_metadata_file stale_fs [''harvest''] [''One'', ''MyTwo''] = Inr stale_fs_written
   \<and> lstat stale_fs [''harvest''] = Inr (Dir [(''One'', Dir []), (''metadata.json'', File ''stale'')])
   \<and> (\<exists>text names n.
         lstat stale_fs_written ([''harvest''] @ [''metadata.json'']) = Inr (File text)
         \<and> text = json_dumps [(''game_names'', JList names), (''number_of_games'', JInt n)]
         \<and> json_loads text = Some [(''game_names'', JList names), (''number_of_games'', JInt n)]
         \<and> names = [''One'', ''MyTwo''] \<and> n = length names)
   \<and> (\<exists>fs1. make_json_metadata_file stale_fs [''harvest''] [''One'', ''MyTwo''] = Inr fs1)"
proof -
  have m: "make_json_metadata_file stale_fs [''harvest''] [''One'', ''MyTwo''] = Inr stale_fs_written"
    by code_simp
  have l: "lstat stale_fs [''harvest''] = Inr (Dir [(''One'', Dir []), (''metadata.json'', File ''stale'')])"
    by code_simp
  have n: "\<forall>sub. map_of [(''One'', Dir []), (''metadata.json'', File ''stale'')] ''metadata.json'' \<noteq> Some (Dir sub)"
    by simp
  note t = metadata_file_written[of stale_fs "[''harvest'']" "[''One'', ''MyTwo'']" stale_fs_written
      "[(''One'', Dir []), (''metadata.json'', File ''stale'')]"]
  from t[THEN conjunct1, rule_format, OF m] t[THEN conjunct2, rule_format, OF conjI[OF l n]] m l
  show ?thesis by blast
qed


subsection \<open>Target Preparer\<close>




subsection \<open>Directory Materializer\<close>

text \<open>
  Claim C9, as the code has it. Let a copy of the source directory into the destination
  succeed, the names within each source directory being distinct. Then the source is
  unchanged, a second copy succeeds and leaves the whole tree exactly as the first copy
  left it, and every destination entry that existed before at a path where the source has
  nothing (no entry of that name, or a regular file above it) is left as it was, with one
  exception: the entry \<open>f/n\<close> below a destination directory \<open>f\<close> that stands where
  the source has a regular file \<open>f\<close> named \<open>n\<close>.
\<close>

theorem merge_copy_idempotent:
  assumes "copy_and_overwrite fs src dst = Inr fs'"
    and "lstat fs src = Inr (Dir ses)"
    and "wf_entries ses"
  shows "copy_and_overwrite fs' src dst = Inr fs'
         \<and> lstat fs' src = Inr (Dir ses)
         \<and> (\<forall>q e x. lstat (Dir ses) q = Inl e \<longrightarrow> lstat fs (dst @ q) = Inr x \<longrightarrow>
                    \<not> written_into ses q \<longrightarrow> lstat fs' (dst @ q) = Inr x)"
proof -
  from assms(1) have "copytree fs src dst = Inr fs'" by (simp add: copy_and_overwrite_def)
  from copytree_SomeD[OF this] assms(2) obtain fsm des des' where
    no: "\<not> overlap src dst" and mk: "makedirs fs dst = Inr fsm"
    and ld: "lstat fsm dst = Inr (Dir des)"
    and ce: "copy_entries ses des = (False, des')"
    and f1: "fs' = put fsm dst (Dir des')"
    by auto
  from no have dne: "dst \<noteq> []" by (auto simp: overlap_simps)
  from lstat_butlast_dir[OF ld dne] obtain pes where pd: "lstat fsm (butlast dst) = Inr (Dir pes)"
    by blast
  have l1: "lstat fs' dst = Inr (Dir des')"
    unfolding f1 by (rule lstat_put_same[OF pd dne])
  have src1: "lstat fs' src = Inr (Dir ses)"
    using put_frame[OF no, of fsm "Dir des'"] makedirs_frame[OF no mk] assms(2) f1 by simp
  have mk1: "makedirs fs' dst = Inr fs'" by (rule makedirs_existing[OF l1])
  have ce1: "copy_entries ses des' = (False, des')" by (rule copy_entries_idem[OF assms(3) ce])
  have "put fs' dst (Dir des') = fs'" unfolding f1 by (rule put_put)
  with no src1 mk1 l1 ce1 have again: "copy_and_overwrite fs' src dst = Inr fs'"
    by (simp add: copy_and_overwrite_def copytree_def)
  have frame: "lstat fs' (dst @ q) = Inr x"
    if a: "lstat (Dir ses) q = Inl e" and b: "lstat fs (dst @ q) = Inr x"
      and c: "\<not> written_into ses q" for q e x
  proof -
    from b obtain n where n: "lstat fs dst = Inr n" "lstat n q = Inr x"
      by (auto simp: lstat_append split: sum.splits)
    from a obtain y ys where q: "q = y # ys" by (cases q) auto
    with n(2) obtain des0 where d0: "n = Dir des0" by (cases n) auto
    from makedirs_existing[of fs dst des0] n(1) d0 mk have "fsm = fs" by simp
    with ld n(1) d0 have "des0 = des" by simp
    with n(2) d0 have "lstat (Dir des) q = Inr x" by simp
    from copy_entries_keeps[OF assms(3) a c this] ce
    have "lstat (Dir des') q = Inr x" by simp
    with l1 show ?thesis by (simp add: lstat_append)
  qed
  from again src1 frame show ?thesis by blast
qed

theorem merge_copy_idempotent_witness:
  "copy_and_overwrite merge_fs [''src'', ''GameOne''] [''harvest'', ''One''] = Inr merge_fs_copied
   \<and> copy_and_overwrite merge_fs_copied [''src'', ''GameOne''] [''harvest'', ''One''] = Inr merge_fs_copied
   \<and> lstat merge_fs_copied [''src'', ''GameOne''] = lstat merge_fs [''src'', ''GameOne'']
   \<and> lstat merge_fs [''src'', ''GameOne'', ''assets'', ''b.png''] = Inl FileNotFoundError
   \<and> lstat merge_fs [''harvest'', ''One'', ''assets'', ''b.png''] = Inr (File ''B'')
   \<and> lstat merge_fs_copied [''harvest'', ''One'', ''assets'', ''b.png''] = Inr (File ''B'')
   \<and> lstat merge_fs [''src'', ''GameOne'', ''README'', ''old.txt''] = Inl NotADirectoryError
   \<and> lstat merge_fs [''harvest'', ''One'', ''README'', ''old.txt''] = Inr (File ''O'')
   \<and> lstat merge_fs_copied [''harvest'', ''One'', ''README'', ''old.txt''] = Inr (File ''O'')"
proof -
  let ?ses = "[(''main.go'', File ''package main''), (''README'', File ''read me''),
               (''assets'', Dir [(''a.png'', File ''A'')])]"
  have s: "lstat merge_fs [''src'', ''GameOne''] = Inr (Dir ?ses)" by code_simp
  have w: "wf_entries ?ses" by simp
  have a1: "lstat (Dir ?ses) [''assets'', ''b.png''] = Inl FileNotFoundError" by simp
  have b1: "lstat merge_fs ([''harvest'', ''One''] @ [''assets'', ''b.png'']) = Inr (File ''B'')"
    by code_simp
  have c1: "\<not> written_into ?ses [''assets'', ''b.png'']" by (simp add: written_into_def)
  have a2: "lstat (Dir ?ses) [''README'', ''old.txt''] = Inl NotADirectoryError" by simp
  have b2: "lstat merge_fs ([''harvest'', ''One''] @ [''README'', ''old.txt'']) = Inr (File ''O'')"
    by code_simp
  have c2: "\<not> written_into ?ses [''README'', ''old.txt'']" by (simp add: written_into_def)
  have s1: "lstat merge_fs [''src'', ''GameOne'', ''assets'', ''b.png''] = Inl FileNotFoundError"
    by code_simp
  have s2: "lstat merge_fs [''src'', ''GameOne'', ''README'', ''old.txt''] = Inl NotADirectoryError"
    by code_simp
  note t = merge_copy_idempotent[OF merge_fs_copy s w]
  from t[THEN conjunct1] t[THEN conjunct2, THEN conjunct1]
    t[THEN conjunct2, THEN conjunct2, rule_format, OF a1 b1 c1]
    t[THEN conjunct2, THEN conjunct2, rule_format, OF a2 b2 c2]
    merge_fs_copy s s1 s2 b1 b2
  show ?thesis by simp
qed


text \<open>
  Claim C9 as stated fails for a file that is absent at the source because a source file
  stands where the destination has a directory: \<^verbatim>\<open>copy2\<close> writes a file whose
  destination is a directory into that directory, under the file's own name. The source
  has the file \<^verbatim>\<open>x\<close> and no \<^verbatim>\<open>x/x\<close>; the destination file \<^verbatim>\<open>x/x\<close> is
  overwritten by the copy, which raises no error.
\<close>

theorem copy_into_directory_counterexample:
  "lstat clash_fs [''src'', ''x'', ''x''] = Inl NotADirectoryError
   \<and> lstat clash_fs [''dst'', ''x'', ''x''] = Inr (File ''old'')
   \<and> copy_and_overwrite clash_fs [''src''] [''dst''] = Inr clash_fs_copied
   \<and> lstat clash_fs_copied [''dst'', ''x'', ''x''] = Inr (File ''new'')"
  by code_simp

end
